theory Spec2Isabelle
  imports Main
begin

section \<open>Datapoints paging of the Cognite Python SDK\<close>

text \<open>
  A shallow embedding of \<^verbatim>\<open>cognite/client/stable/datapoints.py\<close>: the window
  splitting and the paging loop of \<^verbatim>\<open>DatapointsClient.get_datapoints\<close> and
  \<^verbatim>\<open>_get_datapoints_helper\<close>, and the lockstep pager
  \<^verbatim>\<open>get_multi_time_series_datapoints\<close>.

  Python integers are \<open>int\<close>. Timestamps and granularities are milliseconds. A
  granularity string is represented by the number of milliseconds that
  \<^verbatim>\<open>_utils.granularity_to_ms\<close> gives it, and an absent granularity by \<open>None\<close>;
  \<^verbatim>\<open>_utils.interval_to_ms\<close> has already been applied to every start and end.
  An exception is a result \<open>Inl e\<close>. A loop that may run forever is a
  \<^theory_text>\<open>partial_function\<close> in the option monad: \<open>None\<close> is a call that never
  returns. Every HTTP request a function sends is appended to a list that the function
  returns beside its result, so that what was requested can be stated.
\<close>

subsection \<open>Errors, datapoints, requests\<close>

datatype error = ZeroDivisionError | ValueError | IndexError | InvalidArgument | FetchFailed

datatype 'v datapoint = Datapoint (timestamp: int) (dp_value: 'v)

text \<open>The \<^verbatim>\<open>params\<close> dictionary of one GET request (lines 266-273).\<close>

record params =
  p_aggregates :: "string list option"
  p_granularity :: "int option"
  p_limit :: int
  p_start :: int
  p_end :: int
  p_includeOutsidePoints :: bool

text \<open>
  \<^verbatim>\<open>DatapointsQuery\<close> (lines 28-51): \<open>dpq_aggregates\<close> is the comma-joined string
  the constructor stores, \<open>Some []\<close> being the empty string.
\<close>

record dpq =
  dpq_name :: string
  dpq_aggregates :: "string option"
  dpq_granularity :: "int option"
  dpq_start :: "int option"
  dpq_end :: "int option"
  dpq_limit :: "int option"

text \<open>The body of one POST to \<^verbatim>\<open>/timeseries/dataquery\<close> (lines 542-549).\<close>

record body =
  b_items :: "dpq list"
  b_aggregates :: "string option"
  b_granularity :: "int option"
  b_start :: int
  b_includeOutsidePoints :: bool
  b_end :: int

text \<open>
  The client object: the constants \<^verbatim>\<open>_LIMIT\<close>, \<^verbatim>\<open>_LIMIT_AGG\<close> and
  \<^verbatim>\<open>_num_of_workers\<close> of \<^verbatim>\<open>APIClient\<close>, which is not among the sources and
  so stays a parameter, and the transport. \<open>get self name use_protobuf params\<close> is
  \<^verbatim>\<open>self._get(url, params, headers)\<close> followed by the decoding of the response
  (lines 278-284); \<open>post self body\<close> is \<^verbatim>\<open>self._post(url, body).json()["data"]["items"]\<close>
  reduced to the datapoints of each item (line 553). A failure of either is \<open>Inl\<close>.
\<close>

record 'v client =
  LIMIT :: int
  LIMIT_AGG :: int
  num_of_workers :: int
  get :: "string \<Rightarrow> bool \<Rightarrow> params \<Rightarrow> error + 'v datapoint list"
  post :: "body \<Rightarrow> error + 'v datapoint list list"

text \<open>The keyword arguments \<^verbatim>\<open>get_datapoints\<close> reads; \<open>None\<close> is an absent key.\<close>

record kwargs =
  kw_workers :: "int option"
  kw_include_outside_points :: "bool option"
  kw_protobuf :: "bool option"
  kw_limit :: "int option"

subsection \<open>Arithmetic helpers\<close>

text \<open>
  \<^verbatim>\<open>int(a / b)\<close>: Python's true division followed by truncation towards zero, and
  \<^verbatim>\<open>ZeroDivisionError\<close> for \<open>b = 0\<close>. The quotient is a float; for operands
  \<open>a + b < 2 ^ 53\<close>, which millisecond timestamps are, its truncation is the truncated
  integer quotient written here.
\<close>

definition int_truediv :: "int \<Rightarrow> int \<Rightarrow> error + int" where
  "int_truediv a b =
     (if b = 0 then Inl ZeroDivisionError
      else Inr (sgn a * sgn b * (\<bar>a\<bar> div \<bar>b\<bar>)))"

text \<open>
  Modelled from the spec: \<^verbatim>\<open>_utils.round_to_nearest\<close> is not among the sources.
  The specification (section 4.1, \<^verbatim>\<open>roundDownToMultiple\<close>) gives it as: the largest
  multiple of \<open>base\<close> that is at most the argument, and \<open>InvalidArgument\<close> for
  \<open>base \<le> 0\<close>.
\<close>

definition round_to_nearest :: "int \<Rightarrow> int \<Rightarrow> error + int" where
  "round_to_nearest x base =
     (if base \<le> 0 then Inl InvalidArgument else Inr (base * (x div base)))"

text \<open>\<^verbatim>\<open>",".join(xs)\<close>.\<close>

fun join :: "string list \<Rightarrow> string" where
  "join [] = []"
| "join [x] = x"
| "join (x # y # ys) = x @ CHR '','' # join (y # ys)"

text \<open>
  Lines 192-194, and the same expression in lines 291 and 562:
  \<^verbatim>\<open>_utils.granularity_to_ms(granularity) if granularity else 1\<close>.
\<close>

definition granularity_ms :: "int option \<Rightarrow> int" where
  "granularity_ms granularity = (case granularity of None \<Rightarrow> 1 | Some g \<Rightarrow> g)"

subsection \<open>Splitting the window (\<^verbatim>\<open>get_datapoints\<close>, lines 196-202)\<close>

text \<open>
  The same four lines stand in \<^verbatim>\<open>get_datapoints_frame\<close> (lines 647-653). Each
  definition is one local variable of the source.
\<close>

definition steps :: "int \<Rightarrow> int \<Rightarrow> int \<Rightarrow> error + int" where
  "steps diff workers g_ms =
     (case int_truediv diff g_ms of
        Inl e \<Rightarrow> Inl e
      | Inr q \<Rightarrow> Inr (min workers (max 1 q)))"

definition step_size :: "int \<Rightarrow> int \<Rightarrow> int \<Rightarrow> error + int" where
  "step_size diff n g_ms =
     (case int_truediv diff n of
        Inl e \<Rightarrow> Inl e
      | Inr d \<Rightarrow> round_to_nearest d g_ms)"

text \<open>\<^verbatim>\<open>range(steps)\<close> is \<open>[0..n - 1]\<close>, empty for \<open>n \<le> 0\<close>.\<close>

definition step_starts :: "int \<Rightarrow> int \<Rightarrow> int \<Rightarrow> int list" where
  "step_starts start n sz = map (\<lambda>i. start + i * sz) [0..n - 1]"

definition args :: "int list \<Rightarrow> int \<Rightarrow> (int \<times> int) list" where
  "args starts sz = map (\<lambda>s. (s, s + sz)) starts"

text \<open>Lines 197-202 together: the list of \<open>(start, end)\<close> pairs handed to the pool.\<close>

definition split_args :: "int \<Rightarrow> int \<Rightarrow> int \<Rightarrow> int \<Rightarrow> error + (int \<times> int) list" where
  "split_args start end workers g_ms =
     (case steps (end - start) workers g_ms of
        Inl e \<Rightarrow> Inl e
      | Inr n \<Rightarrow>
          (case step_size (end - start) n g_ms of
             Inl e \<Rightarrow> Inl e
           | Inr sz \<Rightarrow> Inr (args (step_starts start n sz) sz)))"

subsection \<open>The paginator (\<^verbatim>\<open>_get_datapoints_helper\<close>, lines 261-294)\<close>

text \<open>
  The \<^verbatim>\<open>while\<close> loop of lines 277-291. \<open>datapoints\<close> is the list of pages
  fetched so far and \<open>sent\<close> the requests issued so far, oldest first. The result
  holds the requests issued and either the error raised or the final \<open>params\<close>
  with the pages.
\<close>

partial_function (option) helper_loop ::
  "'v client \<Rightarrow> string \<Rightarrow> bool \<Rightarrow> int \<Rightarrow> int option \<Rightarrow> params \<Rightarrow>
   'v datapoint list list \<Rightarrow> params list \<Rightarrow>
   (params list \<times> (error + params \<times> 'v datapoint list list)) option"
where
  "helper_loop self name use_protobuf limit granularity params datapoints sent =
     (if (datapoints = [] \<or> int (length (last datapoints)) = limit)
         \<and> p_end params > p_start params
      then
        (case get self name use_protobuf params of
           Inl e \<Rightarrow> Some (sent @ [params], Inl e)
         | Inr res \<Rightarrow>
             if res = [] then Some (sent @ [params], Inr (params, datapoints))
             else
               helper_loop self name use_protobuf limit granularity
                 (params\<lparr>p_start := timestamp (last res) + granularity_ms granularity\<rparr>)
                 (datapoints @ [res])
                 (sent @ [params]))
      else Some (sent, Inr (params, datapoints)))"

definition get_datapoints_helper ::
  "'v client \<Rightarrow> string \<Rightarrow> string list option \<Rightarrow> int option \<Rightarrow> int \<Rightarrow> int \<Rightarrow>
   bool \<Rightarrow> bool \<Rightarrow> (params list \<times> (error + 'v datapoint list)) option"
where
  "get_datapoints_helper self name aggregates granularity start end protobuf
       include_outside_points =
     (let use_protobuf = (protobuf \<and> aggregates = None);
          limit = (if aggregates = None then LIMIT self else LIMIT_AGG self);
          params = \<lparr>p_aggregates = aggregates, p_granularity = granularity,
                     p_limit = limit, p_start = start, p_end = end,
                     p_includeOutsidePoints = include_outside_points\<rparr>
      in case helper_loop self name use_protobuf limit granularity params [] [] of
           None \<Rightarrow> None
         | Some (sent, r) \<Rightarrow>
             Some (sent, case r of
                           Inl e \<Rightarrow> Inl e
                         | Inr (_, datapoints) \<Rightarrow> Inr (concat datapoints)))"

subsection \<open>The coordinator (\<^verbatim>\<open>get_datapoints\<close>, lines 173-219)\<close>

text \<open>
  \<^verbatim>\<open>_get_datapoints_user_defined_limit\<close> (lines 327-348): one request, no paging.
  The caller passes \<^verbatim>\<open>protobuf=kwargs.get("protobuf")\<close>, so an absent key arrives
  as \<^verbatim>\<open>None\<close> and switches protobuf off.
\<close>

definition get_datapoints_user_defined_limit ::
  "'v client \<Rightarrow> string \<Rightarrow> string list option \<Rightarrow> int option \<Rightarrow> int \<Rightarrow> int \<Rightarrow> int \<Rightarrow>
   bool option \<Rightarrow> bool \<Rightarrow> params list \<times> (error + 'v datapoint list)"
where
  "get_datapoints_user_defined_limit self name aggregates granularity start end limit
       protobuf include_outside_points =
     (let use_protobuf = (protobuf = Some True \<and> aggregates = None);
          params = \<lparr>p_aggregates = aggregates, p_granularity = granularity,
                     p_limit = limit, p_start = start, p_end = end,
                     p_includeOutsidePoints = include_outside_points\<rparr>
      in ([params], get self name use_protobuf params))"

text \<open>Lines 188-190: the worker count the splitter is given.\<close>

definition worker_count :: "'v client \<Rightarrow> kwargs \<Rightarrow> int" where
  "worker_count self kwargs =
     (if kw_include_outside_points kwargs = Some True then 1
      else (case kw_workers kwargs of None \<Rightarrow> num_of_workers self | Some w \<Rightarrow> w))"

text \<open>
  \<^verbatim>\<open>Pool(steps).map\<close> (lines 213-214): every task is submitted, the
  \<^verbatim>\<open>with\<close> block waits for all of them, and the results come back in the order
  of the arguments. A task that never returns keeps the whole call from returning.
\<close>

fun pool_map :: "('a \<Rightarrow> 'b option) \<Rightarrow> 'a list \<Rightarrow> 'b list option" where
  "pool_map f [] = Some []"
| "pool_map f (a # as) =
     (case f a of
        None \<Rightarrow> None
      | Some r \<Rightarrow> (case pool_map f as of None \<Rightarrow> None | Some rs \<Rightarrow> Some (r # rs)))"

text \<open>
  Reading the results (lines 216-217): the first task, in the order of the arguments,
  that raised re-raises here; otherwise all results are there.
\<close>

fun collect :: "(error + 'b) list \<Rightarrow> error + 'b list" where
  "collect [] = Inr []"
| "collect (Inl e # rs) = Inl e"
| "collect (Inr x # rs) = (case collect rs of Inl e \<Rightarrow> Inl e | Inr xs \<Rightarrow> Inr (x # xs))"

text \<open>
  Lines 201-217 of \<^verbatim>\<open>get_datapoints\<close>, for the \<^verbatim>\<open>steps\<close> and the
  \<^verbatim>\<open>step_size\<close> that lines 197 and 199 have computed: the sub-windows are made from
  \<^verbatim>\<open>start\<close>, \<^verbatim>\<open>steps\<close> and \<^verbatim>\<open>step_size\<close> alone, one paginator is run on
  each, and the results are concatenated. \<^verbatim>\<open>Pool(steps)\<close> raises
  \<^verbatim>\<open>ValueError\<close> for \<open>steps \<le> 0\<close>.
\<close>

definition fetch_windows ::
  "'v client \<Rightarrow> string \<Rightarrow> string list option \<Rightarrow> int option \<Rightarrow> bool \<Rightarrow> bool \<Rightarrow>
   int \<Rightarrow> int \<Rightarrow> int \<Rightarrow> (params list list \<times> (error + 'v datapoint list)) option"
where
  "fetch_windows self name aggregates granularity protobuf include_outside_points start n sz =
     (if n \<le> 0 then Some ([], Inl ValueError)
      else
        (case pool_map
                (\<lambda>(s, e). get_datapoints_helper self name aggregates
                             granularity s e protobuf include_outside_points)
                (args (step_starts start n sz) sz) of
           None \<Rightarrow> None
         | Some rs \<Rightarrow>
             Some (map fst rs,
                   case collect (map snd rs) of
                     Inl e \<Rightarrow> Inl e
                   | Inr ds \<Rightarrow> Inr (concat ds))))"

text \<open>
  \<^verbatim>\<open>get_datapoints\<close>. The result holds, for every sub-window in dispatch order,
  the requests its paginator issued, and either the error raised or the datapoints of
  the response.
\<close>

definition get_datapoints ::
  "'v client \<Rightarrow> string \<Rightarrow> int \<Rightarrow> int \<Rightarrow> string list option \<Rightarrow> int option \<Rightarrow> kwargs \<Rightarrow>
   (params list list \<times> (error + 'v datapoint list)) option"
where
  "get_datapoints self name start end aggregates granularity kwargs =
     (let include_outside_points =
            (case kw_include_outside_points kwargs of None \<Rightarrow> False | Some b \<Rightarrow> b)
      in
      if kw_limit kwargs \<noteq> None \<and> kw_limit kwargs \<noteq> Some 0 then
        (case get_datapoints_user_defined_limit self name aggregates granularity start end
                (the (kw_limit kwargs)) (kw_protobuf kwargs) include_outside_points of
           (sent, r) \<Rightarrow> Some ([sent], r))
      else
        (let diff = end - start;
             workers = worker_count self kwargs;
             g_ms = granularity_ms granularity;
             protobuf = (case kw_protobuf kwargs of None \<Rightarrow> True | Some b \<Rightarrow> b)
         in case steps diff workers g_ms of
              Inl e \<Rightarrow> Some ([], Inl e)
            | Inr n \<Rightarrow>
                (case step_size diff n g_ms of
                   Inl e \<Rightarrow> Some ([], Inl e)
                 | Inr sz \<Rightarrow>
                     fetch_windows self name aggregates granularity protobuf
                       include_outside_points start n sz)))"

subsection \<open>The lockstep pager (\<^verbatim>\<open>get_multi_time_series_datapoints\<close>, lines 524-573)\<close>

text \<open>The test of the counting loop (line 530): the query counts as raw data.\<close>

definition counted_raw :: "string list option \<Rightarrow> dpq \<Rightarrow> bool" where
  "counted_raw aggregates q =
     ((dpq_aggregates q = None \<and> aggregates = None) \<or> dpq_aggregates q = Some [])"

text \<open>The test of the budgeting loop (line 537): the query gets the raw-data budget.\<close>

definition budgeted_raw :: "string list option \<Rightarrow> dpq \<Rightarrow> bool" where
  "budgeted_raw aggregates q = (dpq_aggregates q = None \<and> aggregates = None)"

text \<open>Lines 527-533.\<close>

definition num_of_dpqs_raw :: "string list option \<Rightarrow> dpq list \<Rightarrow> int" where
  "num_of_dpqs_raw aggregates qs = int (length (filter (counted_raw aggregates) qs))"

definition num_of_dpqs_with_agg :: "string list option \<Rightarrow> dpq list \<Rightarrow> int" where
  "num_of_dpqs_with_agg aggregates qs =
     int (length (filter (\<lambda>q. \<not> counted_raw aggregates q) qs))"

text \<open>Lines 537-540: the limit one query is given.\<close>

definition query_limit :: "'v client \<Rightarrow> string list option \<Rightarrow> int \<Rightarrow> int \<Rightarrow> dpq \<Rightarrow> error + int" where
  "query_limit self aggregates n_raw n_agg q =
     (if budgeted_raw aggregates q then int_truediv (LIMIT self) n_raw
      else int_truediv (LIMIT_AGG self) n_agg)"

text \<open>
  The loop of lines 536-541 from query \<open>i\<close> on. The queries are objects that the loop
  writes to, so the list comes back also when a division raises.
\<close>

function set_limits ::
  "'v client \<Rightarrow> string list option \<Rightarrow> int \<Rightarrow> int \<Rightarrow> nat \<Rightarrow> dpq list \<Rightarrow> dpq list \<times> error option"
where
  "set_limits self aggregates n_raw n_agg i qs =
     (if i < length qs then
        (case query_limit self aggregates n_raw n_agg (qs ! i) of
           Inl e \<Rightarrow> (qs, Some e)
         | Inr l \<Rightarrow>
             set_limits self aggregates n_raw n_agg (Suc i)
               (qs[i := (qs ! i)\<lparr>dpq_limit := Some l\<rparr>]))
      else (qs, None))"
  by pat_completeness auto
termination
  by (relation "measure (\<lambda>(self, aggregates, n_raw, n_agg, i, qs). length qs - i)") auto

text \<open>
  The \<^verbatim>\<open>for\<close> loop of lines 556-567 over the responses from index \<open>i\<close> on.
  \<open>inc\<close> is \<^verbatim>\<open>has_incomplete_requests\<close>. \<^verbatim>\<open>datapoints_queries[i]\<close> raises
  \<^verbatim>\<open>IndexError\<close> past the end of the list, and so does \<^verbatim>\<open>[-1]\<close> on an empty
  page.
\<close>

fun update_queries ::
  "int \<Rightarrow> int option \<Rightarrow> nat \<Rightarrow> 'v datapoint list list \<Rightarrow> dpq list \<Rightarrow> bool \<Rightarrow>
   dpq list \<times> (error + bool)"
where
  "update_queries end granularity i [] qs inc = (qs, Inr inc)"
| "update_queries end granularity i (dpr # rest) qs inc =
     (if length qs \<le> i then (qs, Inl IndexError)
      else
        (let q = qs ! i in
         if Some (int (length dpr)) = dpq_limit q then
           (if dpr = [] then (qs, Inl IndexError)
            else
              (let latest_timestamp = timestamp (last dpr);
                   ts_granularity =
                     (case dpq_granularity q of None \<Rightarrow> granularity | Some g \<Rightarrow> Some g);
                   next_start = latest_timestamp + granularity_ms ts_granularity
               in update_queries end granularity (Suc i) rest
                    (qs[i := q\<lparr>dpq_start := Some next_start\<rparr>]) True))
         else
           (let next_start =
                  (case dpq_end q of
                     None \<Rightarrow> end - 1
                   | Some e \<Rightarrow> if e \<noteq> 0 then e - 1 else end - 1)
            in update_queries end granularity (Suc i) rest
                 (qs[i := q\<lparr>dpq_start := Some next_start\<rparr>]) inc)))"

text \<open>
  The body of one request. \<^verbatim>\<open>items\<close> holds the attribute dictionaries of the
  query objects themselves (line 541), so a request carries the queries as they are
  when it is sent.
\<close>

definition make_body ::
  "dpq list \<Rightarrow> string list option \<Rightarrow> int option \<Rightarrow> int \<Rightarrow> int \<Rightarrow> bool \<Rightarrow> body" where
  "make_body qs aggregates granularity start end include_outside_points =
     \<lparr>b_items = qs,
      b_aggregates = (case aggregates of None \<Rightarrow> None | Some a \<Rightarrow> Some (join a)),
      b_granularity = granularity, b_start = start,
      b_includeOutsidePoints = include_outside_points, b_end = end\<rparr>"

text \<open>
  The \<^verbatim>\<open>while\<close> loop of lines 552-567. The result holds the requests sent, the
  queries as the loop leaves them, and the error raised or the list of responses.
\<close>

partial_function (option) multi_loop ::
  "'v client \<Rightarrow> string list option \<Rightarrow> int option \<Rightarrow> int \<Rightarrow> int \<Rightarrow> bool \<Rightarrow>
   dpq list \<Rightarrow> 'v datapoint list list list \<Rightarrow> body list \<Rightarrow>
   (body list \<times> dpq list \<times> (error + 'v datapoint list list list)) option"
where
  "multi_loop self aggregates granularity start end include_outside_points qs
       datapoints_responses sent =
     (let b = make_body qs aggregates granularity start end include_outside_points in
      case post self b of
        Inl e \<Rightarrow> Some (sent @ [b], qs, Inl e)
      | Inr res \<Rightarrow>
          (case update_queries end granularity 0 res qs False of
             (qs', Inl e) \<Rightarrow> Some (sent @ [b], qs', Inl e)
           | (qs', Inr inc) \<Rightarrow>
               if inc then
                 multi_loop self aggregates granularity start end include_outside_points qs'
                   (datapoints_responses @ [res]) (sent @ [b])
               else Some (sent @ [b], qs', Inr (datapoints_responses @ [res]))))"

text \<open>Lines 569-572: the datapoints of query \<open>i\<close>, over all responses in order.\<close>

definition results ::
  "dpq list \<Rightarrow> 'v datapoint list list list \<Rightarrow> (string \<times> 'v datapoint list) list" where
  "results qs datapoints_responses =
     map (\<lambda>i. (dpq_name (qs ! i),
                concat (map (\<lambda>res. if i < length res then res ! i else [])
                          datapoints_responses)))
       [0 ..< length qs]"

definition get_multi_time_series_datapoints ::
  "'v client \<Rightarrow> dpq list \<Rightarrow> int \<Rightarrow> int \<Rightarrow> string list option \<Rightarrow> int option \<Rightarrow> bool \<Rightarrow>
   (body list \<times> dpq list \<times> (error + (string \<times> 'v datapoint list) list)) option"
where
  "get_multi_time_series_datapoints self datapoints_queries start end aggregates granularity
       include_outside_points =
     (let n_raw = num_of_dpqs_raw aggregates datapoints_queries;
          n_agg = num_of_dpqs_with_agg aggregates datapoints_queries
      in case set_limits self aggregates n_raw n_agg 0 datapoints_queries of
           (qs, Some e) \<Rightarrow> Some ([], qs, Inl e)
         | (qs, None) \<Rightarrow>
             (case multi_loop self aggregates granularity start end include_outside_points
                     qs [] [] of
                None \<Rightarrow> None
              | Some (sent, qs', Inl e) \<Rightarrow> Some (sent, qs', Inl e)
              | Some (sent, qs', Inr rs) \<Rightarrow> Some (sent, qs', Inr (results qs' rs))))"

subsection \<open>Predicates and inputs of the statements\<close>

text \<open>
  The cursor before each fetch and after the last one: the start of the window, and after
  every page its last timestamp plus the step (line 291).
\<close>

definition cursors :: "int option \<Rightarrow> int \<Rightarrow> 'v datapoint list list \<Rightarrow> int list" where
  "cursors granularity start pages =
     start # map (\<lambda>d. timestamp (last d) + granularity_ms granularity) pages"

text \<open>The server returns no point before the requested start.\<close>

definition only_from_start :: "'v client \<Rightarrow> string \<Rightarrow> bool \<Rightarrow> bool" where
  "only_from_start self name pb \<longleftrightarrow>
     (\<forall>p res. p_start p < p_end p \<longrightarrow> get self name pb p = Inr res \<longrightarrow>
        (\<forall>dp \<in> set res. p_start p \<le> timestamp dp))"

text \<open>
  What a run of the loop from \<open>params\<close> and \<open>dps\<close> issues (\<open>new\<close>) and returns (\<open>r\<close>)
  when the server returns no point before the requested start.
\<close>

definition run_spec ::
  "'v client \<Rightarrow> string \<Rightarrow> bool \<Rightarrow> int option \<Rightarrow> params \<Rightarrow> 'v datapoint list list \<Rightarrow>
   params list \<Rightarrow> (error + params \<times> 'v datapoint list list) \<Rightarrow> bool" where
  "run_spec self name pb g params dps new r \<longleftrightarrow>
     (\<forall>p \<in> set new. p_start p < p_end params \<and> p_end p = p_end params)
   \<and> (new = [] \<or> (int (length new) - 1) * granularity_ms g < p_end params - p_start params)
   \<and> (case r of
         Inl e \<Rightarrow> new \<noteq> [] \<and> get self name pb (last new) = Inl e
       | Inr (params', dps') \<Rightarrow>
           (\<exists>pages. dps' = dps @ pages
              \<and> length pages \<le> length new \<and> length new \<le> Suc (length pages)
              \<and> (length new = Suc (length pages) \<longrightarrow> get self name pb (last new) = Inr [])
              \<and> map p_start new = take (length new) (cursors g (p_start params) pages)
              \<and> p_start params' = last (cursors g (p_start params) pages)
              \<and> p_end params' = p_end params
              \<and> sorted_wrt (<) (cursors g (p_start params) pages)
              \<and> (\<forall>d \<in> set pages. d \<noteq> [] \<and> (\<forall>dp \<in> set d. p_start params \<le> timestamp dp))
              \<and> sorted_wrt (\<lambda>d d'. \<forall>dp \<in> set d'. timestamp (last d) < timestamp dp) pages))"

text \<open>What every run of the loop that returns has issued and returned.\<close>

definition trace_spec ::
  "'v client \<Rightarrow> string \<Rightarrow> bool \<Rightarrow> int option \<Rightarrow> params \<Rightarrow> 'v datapoint list list \<Rightarrow>
   params list \<Rightarrow> (error + params \<times> 'v datapoint list list) \<Rightarrow> bool" where
  "trace_spec self name pb g params dps new r \<longleftrightarrow>
     (\<forall>p \<in> set new. p\<lparr>p_start := p_start params\<rparr> = params \<and> p_start p < p_end p)
   \<and> (\<forall>p \<in> set (butlast new). \<exists>res. get self name pb p = Inr res)
   \<and> (case r of
         Inl e \<Rightarrow> new \<noteq> [] \<and> get self name pb (last new) = Inl e
       | Inr (params', dps') \<Rightarrow>
           (new \<noteq> [] \<longrightarrow> (\<exists>res. get self name pb (last new) = Inr res))
         \<and> (\<exists>pages. dps' = dps @ pages
              \<and> length pages \<le> length new \<and> length new \<le> Suc (length pages)
              \<and> map p_start new = take (length new) (cursors g (p_start params) pages)))"

text \<open>
  Every page is non-empty, ascending, and lies in the requested window.
\<close>

definition pages_in_window :: "'v client \<Rightarrow> string \<Rightarrow> bool \<Rightarrow> bool" where
  "pages_in_window self name pb \<longleftrightarrow>
     (\<forall>p. p_start p < p_end p \<longrightarrow>
        (\<exists>res. get self name pb p = Inr res \<and> res \<noteq> [] \<and> sorted (map timestamp res)
           \<and> (\<forall>dp \<in> set res. p_start p \<le> timestamp dp \<and> timestamp dp < p_end p)))"

text \<open>
  A server that answers every request with the one point at the requested start; its
  limits are \<open>l\<close>.
\<close>

definition point_server :: "int \<Rightarrow> unit client" where
  "point_server l =
     \<lparr>LIMIT = l, LIMIT_AGG = l, num_of_workers = 10,
      get = (\<lambda>name pb p. Inr [Datapoint (p_start p) ()]),
      post = (\<lambda>b. Inr [])\<rparr>"

text \<open>The request for the window \<open>[0, 3)\<close> at granularity 2 ms and limit 1.\<close>

definition window_0_3 :: params where
  "window_0_3 = \<lparr>p_aggregates = None, p_granularity = Some 2, p_limit = 1,
                  p_start = 0, p_end = 3, p_includeOutsidePoints = False\<rparr>"

text \<open>A server with no data: every page is empty.\<close>

definition empty_server :: "unit client" where
  "empty_server =
     \<lparr>LIMIT = 100000, LIMIT_AGG = 10000, num_of_workers = 10,
      get = (\<lambda>name pb p. Inr []),
      post = (\<lambda>b. Inr [])\<rparr>"


text \<open>Three workers requested, nothing else.\<close>

definition three_workers :: kwargs where
  "three_workers = \<lparr>kw_workers = Some 3, kw_include_outside_points = None,
                      kw_protobuf = None, kw_limit = None\<rparr>"

text \<open>Two workers requested, nothing else.\<close>

definition two_workers :: kwargs where
  "two_workers = \<lparr>kw_workers = Some 2, kw_include_outside_points = None,
                    kw_protobuf = None, kw_limit = None\<rparr>"

text \<open>
  A server that fails every request starting at 2 ms or later and answers every other
  one with the point at the requested start; its limits are 1.
\<close>

definition failing_server :: "unit client" where
  "failing_server =
     \<lparr>LIMIT = 1, LIMIT_AGG = 1, num_of_workers = 10,
      get = (\<lambda>name pb p. if 2 \<le> p_start p then Inl FetchFailed
                           else Inr [Datapoint (p_start p) ()]),
      post = (\<lambda>b. Inl FetchFailed)\<rparr>"

text \<open>
  \<^verbatim>\<open>DatapointsQuery("a", aggregates=[])\<close>: the constructor joins the empty list into the
  empty string, which asks for raw data when the call has default aggregates.
\<close>

definition raw_by_empty_string :: dpq where
  "raw_by_empty_string =
     \<lparr>dpq_name = ''a'', dpq_aggregates = Some [], dpq_granularity = None,
      dpq_start = None, dpq_end = None, dpq_limit = None\<rparr>"

text \<open>\<^verbatim>\<open>DatapointsQuery("b", aggregates=["avg"])\<close>.\<close>

definition avg_query :: dpq where
  "avg_query =
     \<lparr>dpq_name = ''b'', dpq_aggregates = Some ''avg'', dpq_granularity = None,
      dpq_start = None, dpq_end = None, dpq_limit = None\<rparr>"

text \<open>The test of line 558: the page of the query is full.\<close>

definition page_full :: "dpq \<Rightarrow> 'v datapoint list \<Rightarrow> bool" where
  "page_full q dpr \<longleftrightarrow> Some (int (length dpr)) = dpq_limit q"

text \<open>The value lines 560-566 give \<^verbatim>\<open>next_start\<close>.\<close>

definition next_start :: "int \<Rightarrow> int option \<Rightarrow> dpq \<Rightarrow> 'v datapoint list \<Rightarrow> int" where
  "next_start end granularity q dpr =
     (if page_full q dpr
      then timestamp (last dpr)
             + granularity_ms (case dpq_granularity q of None \<Rightarrow> granularity | Some g \<Rightarrow> Some g)
      else (case dpq_end q of
              None \<Rightarrow> end - 1
            | Some e \<Rightarrow> if e \<noteq> 0 then e - 1 else end - 1))"

text \<open>
  \<^verbatim>\<open>DatapointsQuery("a", end=200)\<close> after the budgeting loop gave it the limit 5; the empty
  page is what the server returns for it.
\<close>

definition own_end_query :: dpq where
  "own_end_query = \<lparr>dpq_name = ''a'', dpq_aggregates = None, dpq_granularity = None,
                     dpq_start = None, dpq_end = Some 200, dpq_limit = Some 5\<rparr>"

definition empty_page :: "unit datapoint list" where
  "empty_page = []"

text \<open>
  What a run of the loop of lines 552-567 that returns has sent: the first request carries
  the queries as they were when the loop began, every later request carries the queries as
  the pass over the response before it left them, and after a run that ends without an
  error the queries are as the pass over the last response left them.
\<close>

definition lockstep_trace ::
  "'v client \<Rightarrow> int \<Rightarrow> int option \<Rightarrow> dpq list \<Rightarrow> body list \<Rightarrow> dpq list \<Rightarrow>
   (error + 'r) \<Rightarrow> bool" where
  "lockstep_trace self end g qs new qs' r \<longleftrightarrow>
     new \<noteq> [] \<and> b_items (new ! 0) = qs \<and> length qs' = length qs
   \<and> (\<forall>k. Suc k < length new \<longrightarrow>
         (\<exists>res. post self (new ! k) = Inr res
            \<and> update_queries end g 0 res (b_items (new ! k)) False
                = (b_items (new ! Suc k), Inr True)))
   \<and> (case r of
         Inl e \<Rightarrow> True
       | Inr rs \<Rightarrow>
           (\<exists>res. post self (last new) = Inr res
              \<and> update_queries end g 0 res (b_items (last new)) False = (qs', Inr False)))"

text \<open>
  A server with one point, at time 0 in the series \<open>a\<close>, and none in any other series; a
  query without a start of its own reads from the start of the request. Its limits are 2.
\<close>

definition lockstep_server :: "unit client" where
  "lockstep_server =
     \<lparr>LIMIT = 2, LIMIT_AGG = 2, num_of_workers = 1,
      get = (\<lambda>name pb p. Inr []),
      post = (\<lambda>b. Inr (map (\<lambda>q. if dpq_name q = ''a''
                                      \<and> (case dpq_start q of None \<Rightarrow> b_start b | Some s \<Rightarrow> s) \<le> 0
                                   then [Datapoint 0 ()] else [])
                          (b_items b)))\<rparr>"

text \<open>\<^verbatim>\<open>DatapointsQuery("a")\<close> and \<^verbatim>\<open>DatapointsQuery("b")\<close>.\<close>

definition query_a :: dpq where
  "query_a = \<lparr>dpq_name = ''a'', dpq_aggregates = None, dpq_granularity = None,
               dpq_start = None, dpq_end = None, dpq_limit = None\<rparr>"

definition query_b :: dpq where
  "query_b = \<lparr>dpq_name = ''b'', dpq_aggregates = None, dpq_granularity = None,
               dpq_start = None, dpq_end = None, dpq_limit = None\<rparr>"

text \<open>
  The state of the loop of lines 277-291 after \<open>k\<close> more pages have been fetched and
  appended, from the state \<open>params\<close>, \<open>dps\<close>; \<open>None\<close> when the loop has ended before.
\<close>

fun loop_state ::
  "'v client \<Rightarrow> string \<Rightarrow> bool \<Rightarrow> int \<Rightarrow> int option \<Rightarrow> nat \<Rightarrow> params \<Rightarrow>
   'v datapoint list list \<Rightarrow> (params \<times> 'v datapoint list list) option"
where
  "loop_state self name pb limit g 0 params dps = Some (params, dps)"
| "loop_state self name pb limit g (Suc k) params dps =
     (if (dps = [] \<or> int (length (last dps)) = limit) \<and> p_end params > p_start params
      then (case get self name pb params of
              Inl e \<Rightarrow> None
            | Inr res \<Rightarrow>
                if res = [] then None
                else loop_state self name pb limit g k
                       (params\<lparr>p_start := timestamp (last res) + granularity_ms g\<rparr>)
                       (dps @ [res]))
      else None)"

text \<open>
  Every page the loop fetches, from the state \<open>params\<close>, \<open>dps\<close> on, is non-empty, ascending,
  and lies in the window from the requested start to the end. Nothing is asked of a
  request the loop does not make.
\<close>

definition fetched_pages_in_window ::
  "'v client \<Rightarrow> string \<Rightarrow> bool \<Rightarrow> int \<Rightarrow> int option \<Rightarrow> params \<Rightarrow>
   'v datapoint list list \<Rightarrow> bool" where
  "fetched_pages_in_window self name pb limit g params dps \<longleftrightarrow>
     (\<forall>k p d. loop_state self name pb limit g k params dps = Some (p, d) \<longrightarrow>
        (d = [] \<or> int (length (last d)) = limit) \<and> p_end p > p_start p \<longrightarrow>
        (\<exists>res. get self name pb p = Inr res \<and> res \<noteq> [] \<and> sorted (map timestamp res)
           \<and> (\<forall>dp \<in> set res. p_start p \<le> timestamp dp \<and> timestamp dp < p_end p)))"

text \<open>
  A server that holds the four points at 0, 1, 2 and 3 ms and returns the first
  \<^verbatim>\<open>limit\<close> of them that lie in the requested window; its limits are 2.
\<close>

definition four_point_server :: "unit client" where
  "four_point_server =
     \<lparr>LIMIT = 2, LIMIT_AGG = 2, num_of_workers = 10,
      get = (\<lambda>name pb p.
               Inr (take (nat (p_limit p))
                      (filter (\<lambda>dp. p_start p \<le> timestamp dp \<and> timestamp dp < p_end p)
                         [Datapoint 0 (), Datapoint 1 (), Datapoint 2 (), Datapoint 3 ()]))),
      post = (\<lambda>b. Inr [])\<rparr>"

text \<open>The request for the window \<open>[0, 4)\<close> of raw data at limit 2.\<close>

definition window_0_4 :: params where
  "window_0_4 = \<lparr>p_aggregates = None, p_granularity = None, p_limit = 2,
                  p_start = 0, p_end = 4, p_includeOutsidePoints = False\<rparr>"

section \<open>The splitter\<close>

lemma int_truediv_pos: "0 \<le> a \<Longrightarrow> 0 < b \<Longrightarrow> int_truediv a b = Inr (a div b)"
  by (auto simp: int_truediv_def sgn_if)

lemma steps_pos:
  assumes "0 \<le> d" "1 \<le> g"
  shows "steps d w g = Inr (min w (max 1 (d div g)))"
  using assms by (simp add: steps_def int_truediv_pos)

lemma step_size_pos:
  assumes "0 \<le> d" "1 \<le> n" "1 \<le> g"
  shows "step_size d n g = Inr (g * (d div n div g))"
  using assms by (simp add: step_size_def int_truediv_pos round_to_nearest_def)

lemma args_nth:
  assumes "i < nat n"
  shows "args (step_starts start n sz) sz ! i = (start + int i * sz, start + int i * sz + sz)"
  using assms by (simp add: args_def step_starts_def)

lemma args_length: "length (args (step_starts start n sz) sz) = nat n"
  by (simp add: args_def step_starts_def)

lemma windows_disjoint:
  fixes sz :: int
  assumes "0 \<le> sz" "i < j"
  shows "{start + int i * sz ..< start + int i * sz + sz}
           \<inter> {start + int j * sz ..< start + int j * sz + sz} = {}"
proof -
  have "int i + 1 \<le> int j" using assms by simp
  then have "(int i + 1) * sz \<le> int j * sz" using assms(1) by (rule mult_right_mono)
  then have "start + int i * sz + sz \<le> start + int j * sz" by (simp add: algebra_simps)
  then show ?thesis by auto
qed

text \<open>
  C1. For a window with \<open>start < end\<close>, a worker count of at least 1 and a granularity
  of at least 1 ms, the number of steps is
  \<open>min workerCount (max 1 ((end - start) div granularityMs))\<close>, the step size is a
  multiple of the granularity, and the splitter produces that many windows
  \<open>[start + i * sz, start + (i + 1) * sz)\<close>: pairwise disjoint, each ending where the
  next begins, every boundary a multiple of the granularity away from \<open>start\<close>. The
  window \<open>[0, 1000000)\<close> with 4 workers and granularity 10000 gives four windows of
  length 250000.
\<close>

theorem split_windows:
  assumes "start < end" "1 \<le> workerCount" "1 \<le> granularityMs"
  shows "(\<exists>n sz ws.
           steps (end - start) workerCount granularityMs = Inr n
         \<and> n = min workerCount (max 1 ((end - start) div granularityMs))
         \<and> step_size (end - start) n granularityMs = Inr sz
         \<and> granularityMs dvd sz
         \<and> split_args start end workerCount granularityMs = Inr ws
         \<and> int (length ws) = n
         \<and> (\<forall>i < length ws. ws ! i = (start + int i * sz, start + (int i + 1) * sz))
         \<and> (\<forall>i j. i < j \<and> j < length ws \<longrightarrow>
               {fst (ws ! i) ..< snd (ws ! i)} \<inter> {fst (ws ! j) ..< snd (ws ! j)} = {})
         \<and> (\<forall>i. Suc i < length ws \<longrightarrow> snd (ws ! i) = fst (ws ! Suc i))
         \<and> (\<forall>w \<in> set ws. granularityMs dvd (fst w - start)
                         \<and> granularityMs dvd (snd w - start)))
       \<and> split_args 0 1000000 4 10000 =
           Inr [(0, 250000), (250000, 500000), (500000, 750000), (750000, 1000000)]"
proof (rule conjI)
  define d where "d = end - start"
  define n where "n = min workerCount (max 1 (d div granularityMs))"
  define sz where "sz = granularityMs * (d div n div granularityMs)"
  define ws where "ws = args (step_starts start n sz) sz"
  have d: "0 \<le> d" using assms by (simp add: d_def)
  have n: "1 \<le> n" using assms by (simp add: n_def)
  have st: "steps d workerCount granularityMs = Inr n"
    using d assms(3) by (simp add: steps_pos n_def)
  have ss: "step_size d n granularityMs = Inr sz"
    using d n assms(3) by (simp add: step_size_pos sz_def)
  have sz0: "0 \<le> sz"
    using d n assms(3) by (simp add: sz_def pos_imp_zdiv_nonneg_iff)
  have dv: "granularityMs dvd sz" by (simp add: sz_def)
  have sp: "split_args start end workerCount granularityMs = Inr ws"
    using st ss by (simp add: split_args_def ws_def d_def)
  have len: "length ws = nat n" by (simp add: ws_def args_length)
  have nth: "ws ! i = (start + int i * sz, start + (int i + 1) * sz)" if "i < length ws" for i
    using that len by (simp add: ws_def args_nth algebra_simps)
  have disj: "{fst (ws ! i) ..< snd (ws ! i)} \<inter> {fst (ws ! j) ..< snd (ws ! j)} = {}"
    if "i < j" "j < length ws" for i j
  proof -
    have "i < length ws" using that by simp
    then show ?thesis
      using that(2) nth[of i] nth[of j] windows_disjoint[OF sz0 that(1), of start]
      by (simp add: distrib_right)
  qed
  have gap: "snd (ws ! i) = fst (ws ! Suc i)" if "Suc i < length ws" for i
    using that nth[of i] nth[of "Suc i"] by (simp add: algebra_simps)
  have bnd: "granularityMs dvd (fst w - start) \<and> granularityMs dvd (snd w - start)"
    if "w \<in> set ws" for w
  proof -
    from that obtain i where "i < length ws" "w = ws ! i" by (auto simp: in_set_conv_nth)
    then have "w = (start + int i * sz, start + (int i + 1) * sz)" using nth by simp
    then show ?thesis using dv by simp
  qed
  show "\<exists>n sz ws.
           steps (end - start) workerCount granularityMs = Inr n
         \<and> n = min workerCount (max 1 ((end - start) div granularityMs))
         \<and> step_size (end - start) n granularityMs = Inr sz
         \<and> granularityMs dvd sz
         \<and> split_args start end workerCount granularityMs = Inr ws
         \<and> int (length ws) = n
         \<and> (\<forall>i < length ws. ws ! i = (start + int i * sz, start + (int i + 1) * sz))
         \<and> (\<forall>i j. i < j \<and> j < length ws \<longrightarrow>
               {fst (ws ! i) ..< snd (ws ! i)} \<inter> {fst (ws ! j) ..< snd (ws ! j)} = {})
         \<and> (\<forall>i. Suc i < length ws \<longrightarrow> snd (ws ! i) = fst (ws ! Suc i))
         \<and> (\<forall>w \<in> set ws. granularityMs dvd (fst w - start)
                         \<and> granularityMs dvd (snd w - start))"
  proof (rule exI[of _ n], rule exI[of _ sz], rule exI[of _ ws], intro conjI)
    show "steps (end - start) workerCount granularityMs = Inr n"
      using st by (simp only: d_def)
    show "n = min workerCount (max 1 ((end - start) div granularityMs))"
      by (simp only: n_def d_def)
    show "step_size (end - start) n granularityMs = Inr sz"
      using ss by (simp only: d_def)
    show "granularityMs dvd sz" by (rule dv)
    show "split_args start end workerCount granularityMs = Inr ws" by (rule sp)
    show "int (length ws) = n" using len n by simp
    show "\<forall>i < length ws. ws ! i = (start + int i * sz, start + (int i + 1) * sz)"
      using nth by blast
    show "\<forall>i j. i < j \<and> j < length ws \<longrightarrow>
               {fst (ws ! i) ..< snd (ws ! i)} \<inter> {fst (ws ! j) ..< snd (ws ! j)} = {}"
      using disj by blast
    show "\<forall>i. Suc i < length ws \<longrightarrow> snd (ws ! i) = fst (ws ! Suc i)"
      using gap by blast
    show "\<forall>w \<in> set ws. granularityMs dvd (fst w - start) \<and> granularityMs dvd (snd w - start)"
      using bnd by blast
  qed
next
  show "split_args 0 1000000 4 10000 =
           Inr [(0, 250000), (250000, 500000), (500000, 750000), (750000, 1000000)]"
    by (simp add: split_args_def steps_def step_size_def int_truediv_def round_to_nearest_def
        args_def step_starts_def upto.simps)
qed

theorem split_windows_witness:
  "(0::int) < 1000000 \<and> (1::int) \<le> 4 \<and> (1::int) \<le> 10000
   \<and> (\<exists>ws. split_args 0 1000000 4 10000 = Inr ws \<and> length ws = 4
          \<and> (\<forall>w \<in> set ws. (10000::int) dvd (fst w - 0) \<and> 10000 dvd (snd w - 0)))"
proof -
  have h: "(0::int) < 1000000" "(1::int) \<le> 4" "(1::int) \<le> 10000" by simp_all
  from split_windows[OF h] obtain n sz ws where
    n: "n = min 4 (max 1 ((1000000 - 0) div 10000))"
    and "step_size (1000000 - 0) n 10000 = Inr sz"
    and sp: "split_args 0 1000000 4 10000 = Inr ws"
    and len: "int (length ws) = n"
    and bnd: "\<forall>w \<in> set ws. (10000::int) dvd (fst w - 0) \<and> 10000 dvd (snd w - 0)"
    by blast
  have "n = 4" using n by simp
  then have "length ws = 4" using len by simp
  then show ?thesis using h sp bnd by blast
qed

section \<open>The paginator\<close>

lemma run_spec_stop: "run_spec self name pb g params dps [] (Inr (params, dps))"
  by (simp add: run_spec_def cursors_def)

lemma run_spec_error:
  assumes "p_start params < p_end params" "get self name pb params = Inl e"
  shows "run_spec self name pb g params dps [params] (Inl e)"
  using assms by (simp add: run_spec_def)

lemma run_spec_empty:
  assumes "p_start params < p_end params" "get self name pb params = Inr []"
  shows "run_spec self name pb g params dps [params] (Inr (params, dps))"
  using assms by (simp add: run_spec_def cursors_def)

lemma run_spec_step:
  assumes lt: "p_start params < p_end params"
    and res: "res \<noteq> []" "\<forall>dp \<in> set res. p_start params \<le> timestamp dp"
    and g: "1 \<le> granularity_ms g"
    and rec: "run_spec self name pb g
                (params\<lparr>p_start := timestamp (last res) + granularity_ms g\<rparr>) (dps @ [res]) new r"
  shows "run_spec self name pb g params dps (params # new) r"
proof -
  define c where "c = p_start params"
  define c' where "c' = timestamp (last res) + granularity_ms g"
  have "last res \<in> set res" using res(1) by simp
  then have "c \<le> timestamp (last res)" using res(2) by (simp add: c_def)
  then have cc: "c + granularity_ms g \<le> c'" "c < c'" using g by (simp_all add: c'_def)
  note r = rec[unfolded run_spec_def, folded c'_def, simplified]
  from r have r1: "\<forall>p \<in> set new. p_start p < p_end params \<and> p_end p = p_end params"
    by simp
  from r have r2: "new = [] \<or> (int (length new) - 1) * granularity_ms g < p_end params - c'"
    by simp
  have a1: "\<forall>p \<in> set (params # new). p_start p < p_end params \<and> p_end p = p_end params"
    using r1 lt by simp
  have a2: "(int (length (params # new)) - 1) * granularity_ms g < p_end params - p_start params"
  proof (cases "new = []")
    case True
    then show ?thesis using lt by simp
  next
    case False
    then have "(int (length new) - 1) * granularity_ms g < p_end params - c'" using r2 by simp
    then have "int (length new) * granularity_ms g - granularity_ms g < p_end params - c'"
      by (simp add: left_diff_distrib)
    then show ?thesis using cc(1) by (simp add: c_def)
  qed
  have a3: "case r of
         Inl e \<Rightarrow> params # new \<noteq> [] \<and> get self name pb (last (params # new)) = Inl e
       | Inr (params', dps') \<Rightarrow>
           (\<exists>pages. dps' = dps @ pages
              \<and> length pages \<le> length (params # new) \<and> length (params # new) \<le> Suc (length pages)
              \<and> (length (params # new) = Suc (length pages) \<longrightarrow>
                   get self name pb (last (params # new)) = Inr [])
              \<and> map p_start (params # new)
                  = take (length (params # new)) (cursors g (p_start params) pages)
              \<and> p_start params' = last (cursors g (p_start params) pages)
              \<and> p_end params' = p_end params
              \<and> sorted_wrt (<) (cursors g (p_start params) pages)
              \<and> (\<forall>d \<in> set pages. d \<noteq> [] \<and> (\<forall>dp \<in> set d. p_start params \<le> timestamp dp))
              \<and> sorted_wrt (\<lambda>d d'. \<forall>dp \<in> set d'. timestamp (last d) < timestamp dp) pages)"
  proof (cases r)
    case (Inl e)
    then show ?thesis using r by simp
  next
    case (Inr pd)
    obtain params' dps' where pd: "pd = (params', dps')" by (cases pd)
    from r Inr pd obtain pages' where
      p1: "dps' = dps @ res # pages'"
      and p2: "length pages' \<le> length new" "length new \<le> Suc (length pages')"
      and p3: "length new = Suc (length pages') \<longrightarrow> get self name pb (last new) = Inr []"
      and p4: "map p_start new = take (length new) (cursors g c' pages')"
      and p5: "p_start params' = last (cursors g c' pages')"
      and p6: "p_end params' = p_end params"
      and p7: "sorted_wrt (<) (cursors g c' pages')"
      and p8: "\<forall>d \<in> set pages'. d \<noteq> [] \<and> (\<forall>dp \<in> set d. c' \<le> timestamp dp)"
      and p9: "sorted_wrt (\<lambda>d d'. \<forall>dp \<in> set d'. timestamp (last d) < timestamp dp) pages'"
      by auto
    have cs: "cursors g (p_start params) (res # pages') = c # cursors g c' pages'"
      by (simp add: cursors_def c_def c'_def)
    have ne: "cursors g c' pages' \<noteq> []" by (simp add: cursors_def)
    have q1: "dps' = dps @ (res # pages')" using p1 by simp
    have q2: "length (res # pages') \<le> length (params # new)"
      "length (params # new) \<le> Suc (length (res # pages'))" using p2 by simp_all
    have q3: "length (params # new) = Suc (length (res # pages')) \<longrightarrow>
                get self name pb (last (params # new)) = Inr []"
      using p3 by auto
    have q4: "map p_start (params # new)
                = take (length (params # new)) (cursors g (p_start params) (res # pages'))"
      using p4 by (simp add: cs c_def)
    have q5: "p_start params' = last (cursors g (p_start params) (res # pages'))"
      using p5 ne by (simp add: cs)
    have "\<forall>y \<in> set (cursors g c' pages'). c < y"
      using p7 cc(2) by (auto simp: cursors_def)
    then have q7: "sorted_wrt (<) (cursors g (p_start params) (res # pages'))"
      using p7 by (simp add: cs)
    have q8: "\<forall>d \<in> set (res # pages'). d \<noteq> [] \<and> (\<forall>dp \<in> set d. p_start params \<le> timestamp dp)"
      using p8 res cc(2) by (fastforce simp: c_def)
    have "\<forall>d' \<in> set pages'. \<forall>dp \<in> set d'. timestamp (last res) < timestamp dp"
      using p8 g by (fastforce simp: c'_def)
    then have q9: "sorted_wrt (\<lambda>d d'. \<forall>dp \<in> set d'. timestamp (last d) < timestamp dp)
                     (res # pages')"
      using p9 by simp
    show ?thesis
      unfolding Inr pd sum.case prod.case
      using q1 q2 q3 q4 q5 p6 q7 q8 q9 by (intro exI[of _ "res # pages'"] conjI)
  qed
  show ?thesis
    unfolding run_spec_def using a1 a2 a3 by (intro conjI disjI2)
qed

lemma helper_loop_stop:
  assumes "\<not> ((dps = [] \<or> int (length (last dps)) = limit) \<and> p_end params > p_start params)"
  shows "helper_loop self name pb limit g params dps sent = Some (sent, Inr (params, dps))"
  by (subst helper_loop.simps) (simp only: assms if_False)

lemma helper_loop_error:
  assumes "(dps = [] \<or> int (length (last dps)) = limit) \<and> p_end params > p_start params"
    and "get self name pb params = Inl e"
  shows "helper_loop self name pb limit g params dps sent = Some (sent @ [params], Inl e)"
  by (subst helper_loop.simps) (simp only: assms if_True if_False sum.case simp_thms)

lemma helper_loop_empty:
  assumes "(dps = [] \<or> int (length (last dps)) = limit) \<and> p_end params > p_start params"
    and "get self name pb params = Inr []"
  shows "helper_loop self name pb limit g params dps sent
           = Some (sent @ [params], Inr (params, dps))"
  by (subst helper_loop.simps) (simp only: assms if_True if_False sum.case simp_thms)

lemma helper_loop_page:
  assumes "(dps = [] \<or> int (length (last dps)) = limit) \<and> p_end params > p_start params"
    and "get self name pb params = Inr res" and "res \<noteq> []"
  shows "helper_loop self name pb limit g params dps sent
           = helper_loop self name pb limit g
               (params\<lparr>p_start := timestamp (last res) + granularity_ms g\<rparr>)
               (dps @ [res]) (sent @ [params])"
  by (subst helper_loop.simps) (simp only: assms if_True if_False sum.case simp_thms)

lemma helper_loop_total:
  assumes W: "only_from_start self name pb" and g: "1 \<le> granularity_ms g"
  shows "\<exists>new r. helper_loop self name pb limit g params dps sent = Some (sent @ new, r)
               \<and> run_spec self name pb g params dps new r"
proof (induction "nat (p_end params - p_start params)" arbitrary: params dps sent
    rule: less_induct)
  case less
  let ?cond = "(dps = [] \<or> int (length (last dps)) = limit) \<and> p_end params > p_start params"
  show ?case
  proof (cases ?cond)
    case False
    have "helper_loop self name pb limit g params dps sent = Some (sent @ [], Inr (params, dps))"
      using helper_loop_stop[OF False] by simp
    then show ?thesis using run_spec_stop by blast
  next
    case True
    then have lt: "p_start params < p_end params" by simp
    show ?thesis
    proof (cases "get self name pb params")
      case (Inl e)
      show ?thesis using helper_loop_error[OF True Inl] run_spec_error[OF lt Inl] by blast
    next
      case (Inr res)
      show ?thesis
      proof (cases "res = []")
        case e: True
        show ?thesis
          using helper_loop_empty[OF True Inr[unfolded e]] run_spec_empty[OF lt Inr[unfolded e]]
          by blast
      next
        case False
        define params2 where
          "params2 = params\<lparr>p_start := timestamp (last res) + granularity_ms g\<rparr>"
        have ge: "\<forall>dp \<in> set res. p_start params \<le> timestamp dp"
          using W lt Inr unfolding only_from_start_def by blast
        have "last res \<in> set res" using False by simp
        then have "p_start params < p_start params2"
          using ge g by (fastforce simp: params2_def)
        then have "nat (p_end params2 - p_start params2) < nat (p_end params - p_start params)"
          using lt by (simp add: params2_def)
        from less[OF this, of "dps @ [res]" "sent @ [params]"] obtain new r where
          h: "helper_loop self name pb limit g params2 (dps @ [res]) (sent @ [params])
                = Some ((sent @ [params]) @ new, r)"
          and rs: "run_spec self name pb g params2 (dps @ [res]) new r"
          by blast
        have "helper_loop self name pb limit g params dps sent
                = Some (sent @ (params # new), r)"
          using h unfolding params2_def
          by (simp only: helper_loop_page[OF True Inr False] append_assoc append.simps)
        moreover have "run_spec self name pb g params dps (params # new) r"
          using run_spec_step[OF lt False ge g] rs unfolding params2_def by blast
        ultimately show ?thesis by blast
      qed
    qed
  qed
qed

lemma trace_spec_stop: "trace_spec self name pb g params dps [] (Inr (params, dps))"
  by (simp add: trace_spec_def)

lemma trace_spec_error:
  assumes "p_start params < p_end params" "get self name pb params = Inl e"
  shows "trace_spec self name pb g params dps [params] (Inl e)"
  using assms by (simp add: trace_spec_def)

lemma trace_spec_empty:
  assumes "p_start params < p_end params" "get self name pb params = Inr []"
  shows "trace_spec self name pb g params dps [params] (Inr (params, dps))"
  using assms by (simp add: trace_spec_def cursors_def)

lemma same_but_start:
  assumes "p\<lparr>p_start := c'\<rparr> = params\<lparr>p_start := c'\<rparr>"
  shows "p\<lparr>p_start := p_start params\<rparr> = params"
proof -
  have "(p\<lparr>p_start := c'\<rparr>)\<lparr>p_start := p_start params\<rparr>
          = (params\<lparr>p_start := c'\<rparr>)\<lparr>p_start := p_start params\<rparr>"
    using assms by simp
  then show ?thesis by simp
qed

lemma trace_spec_step:
  assumes lt: "p_start params < p_end params"
    and res: "get self name pb params = Inr res"
    and rec: "trace_spec self name pb g
                (params\<lparr>p_start := timestamp (last res) + granularity_ms g\<rparr>) (dps @ [res]) new r"
  shows "trace_spec self name pb g params dps (params # new) r"
proof -
  define c' where "c' = timestamp (last res) + granularity_ms g"
  note r = rec[unfolded trace_spec_def, folded c'_def]
  from r have r1: "\<forall>p \<in> set new. p\<lparr>p_start := c'\<rparr> = params\<lparr>p_start := c'\<rparr> \<and> p_start p < p_end p"
    by simp
  have a1: "\<forall>p \<in> set (params # new). p\<lparr>p_start := p_start params\<rparr> = params \<and> p_start p < p_end p"
    using r1 lt same_but_start by auto
  from r have r2: "\<forall>p \<in> set (butlast new). \<exists>res. get self name pb p = Inr res" by simp
  have a2: "\<forall>p \<in> set (butlast (params # new)). \<exists>res. get self name pb p = Inr res"
    using r2 res by simp
  have a3: "case r of
         Inl e \<Rightarrow> params # new \<noteq> [] \<and> get self name pb (last (params # new)) = Inl e
       | Inr (params', dps') \<Rightarrow>
           (params # new \<noteq> [] \<longrightarrow> (\<exists>res. get self name pb (last (params # new)) = Inr res))
         \<and> (\<exists>pages. dps' = dps @ pages
              \<and> length pages \<le> length (params # new) \<and> length (params # new) \<le> Suc (length pages)
              \<and> map p_start (params # new)
                  = take (length (params # new)) (cursors g (p_start params) pages))"
  proof (cases r)
    case (Inl e)
    then show ?thesis using r by simp
  next
    case (Inr pd)
    obtain params' dps' where pd: "pd = (params', dps')" by (cases pd)
    from r Inr pd have l: "new \<noteq> [] \<longrightarrow> (\<exists>res. get self name pb (last new) = Inr res)"
      by simp
    from r Inr pd obtain pages' where
      p1: "dps' = dps @ res # pages'"
      and p2: "length pages' \<le> length new" "length new \<le> Suc (length pages')"
      and p4: "map p_start new = take (length new) (cursors g c' pages')"
      by auto
    have cs: "cursors g (p_start params) (res # pages') = p_start params # cursors g c' pages'"
      by (simp add: cursors_def c'_def)
    have q0: "params # new \<noteq> [] \<longrightarrow> (\<exists>res. get self name pb (last (params # new)) = Inr res)"
      using l res by simp
    have q1: "dps' = dps @ (res # pages')" using p1 by simp
    have q2: "length (res # pages') \<le> length (params # new)"
      "length (params # new) \<le> Suc (length (res # pages'))" using p2 by simp_all
    have q4: "map p_start (params # new)
                = take (length (params # new)) (cursors g (p_start params) (res # pages'))"
      using p4 by (simp add: cs)
    show ?thesis
      unfolding Inr pd sum.case prod.case
      using q0 q1 q2 q4 by (intro exI[of _ "res # pages'"] conjI)
  qed
  show ?thesis
    unfolding trace_spec_def using a1 a2 a3 by (intro conjI)
qed

lemma helper_loop_trace:
  assumes "helper_loop self name pb limit g params dps sent = Some y"
  shows "\<exists>new. fst y = sent @ new \<and> trace_spec self name pb g params dps new (snd y)"
proof (rule helper_loop.raw_induct[where P = "\<lambda>self name pb limit g params dps sent y.
          \<exists>new. fst y = sent @ new \<and> trace_spec self name pb g params dps new (snd y)",
        OF _ assms])
  fix helper_loop' :: "'a client \<Rightarrow> string \<Rightarrow> bool \<Rightarrow> int \<Rightarrow> int option \<Rightarrow> params \<Rightarrow>
     'a datapoint list list \<Rightarrow> params list \<Rightarrow>
     (params list \<times> (error + params \<times> 'a datapoint list list)) option"
  fix self name pb limit g params dps sent y
  assume IH: "\<And>self name pb limit g params dps sent y.
        helper_loop' self name pb limit g params dps sent = Some y \<Longrightarrow>
        \<exists>new. fst y = sent @ new \<and> trace_spec self name pb g params dps new (snd y)"
  assume body0: "(if (dps = [] \<or> int (length (last dps)) = limit) \<and> p_start params < p_end params
      then case get self name pb params of
           Inl e \<Rightarrow> Some (sent @ [params], Inl e)
           | Inr res \<Rightarrow>
               if res = []
               then Some (sent @ [params], Inr (params, dps))
               else helper_loop' self name pb limit g
                     (params\<lparr>p_start := timestamp (last res) + granularity_ms g\<rparr>)
                     (dps @ [res]) (sent @ [params])
      else Some (sent, Inr (params, dps))) = Some y"
  let ?cond = "(dps = [] \<or> int (length (last dps)) = limit) \<and> p_start params < p_end params"
  show "\<exists>new. fst y = sent @ new \<and> trace_spec self name pb g params dps new (snd y)"
  proof (cases ?cond)
    case False
    have "y = (sent, Inr (params, dps))" using body0 unfolding if_not_P[OF False] by simp
    then show ?thesis using trace_spec_stop by simp
  next
    case True
    then have lt: "p_start params < p_end params" by simp
    note body = body0[unfolded if_P[OF True]]
    show ?thesis
    proof (cases "get self name pb params")
      case (Inl e)
      then have "y = (sent @ [params], Inl e)" using body by simp
      then show ?thesis using trace_spec_error[OF lt Inl] by simp
    next
      case (Inr res)
      show ?thesis
      proof (cases "res = []")
        case e: True
        then have "y = (sent @ [params], Inr (params, dps))" using body Inr by simp
        then show ?thesis using trace_spec_empty[OF lt Inr[unfolded e]] by simp
      next
        case False
        then have "helper_loop' self name pb limit g
                     (params\<lparr>p_start := timestamp (last res) + granularity_ms g\<rparr>)
                     (dps @ [res]) (sent @ [params]) = Some y"
          using body Inr by simp
        from IH[OF this] obtain new where
          n: "fst y = (sent @ [params]) @ new"
          and t: "trace_spec self name pb g
                    (params\<lparr>p_start := timestamp (last res) + granularity_ms g\<rparr>)
                    (dps @ [res]) new (snd y)"
          by blast
        have "fst y = sent @ (params # new)" using n by simp
        then show ?thesis using trace_spec_step[OF lt Inr t] by blast
      qed
    qed
  qed
qed

lemma ceil_bound:
  fixes k s d :: int
  assumes "0 < s" "(k - 1) * s < d"
  shows "k \<le> (d + s - 1) div s"
proof -
  have "k * s \<le> d + s - 1" using assms(2) by (simp add: left_diff_distrib)
  then have "k * s div s \<le> (d + s - 1) div s" using assms(1) by (rule zdiv_mono1)
  then show ?thesis using assms(1) by simp
qed

lemma fetched_pages_in_window_first:
  assumes "fetched_pages_in_window self name pb limit g params dps"
    and "(dps = [] \<or> int (length (last dps)) = limit) \<and> p_end params > p_start params"
  shows "\<exists>res. get self name pb params = Inr res \<and> res \<noteq> []
           \<and> (\<forall>dp \<in> set res. p_start params \<le> timestamp dp)"
proof -
  have "loop_state self name pb limit g 0 params dps = Some (params, dps)" by simp
  with assms show ?thesis unfolding fetched_pages_in_window_def by blast
qed

lemma fetched_pages_in_window_step:
  assumes H: "fetched_pages_in_window self name pb limit g params dps"
    and c: "(dps = [] \<or> int (length (last dps)) = limit) \<and> p_end params > p_start params"
    and r: "get self name pb params = Inr res" and ne: "res \<noteq> []"
  shows "fetched_pages_in_window self name pb limit g
           (params\<lparr>p_start := timestamp (last res) + granularity_ms g\<rparr>) (dps @ [res])"
  unfolding fetched_pages_in_window_def
proof (intro allI impI)
  fix k p d
  assume s: "loop_state self name pb limit g k
               (params\<lparr>p_start := timestamp (last res) + granularity_ms g\<rparr>) (dps @ [res])
             = Some (p, d)"
    and c': "(d = [] \<or> int (length (last d)) = limit) \<and> p_start p < p_end p"
  have "loop_state self name pb limit g (Suc k) params dps = Some (p, d)"
    using s c r ne by simp
  with H c' show "\<exists>res. get self name pb p = Inr res \<and> res \<noteq> [] \<and> sorted (map timestamp res)
           \<and> (\<forall>dp \<in> set res. p_start p \<le> timestamp dp \<and> timestamp dp < p_end p)"
    unfolding fetched_pages_in_window_def by blast
qed

lemma pages_in_window_fetched:
  assumes "pages_in_window self name pb"
  shows "fetched_pages_in_window self name pb limit g params dps"
  using assms unfolding fetched_pages_in_window_def pages_in_window_def by blast

lemma helper_loop_total_pages:
  assumes g: "1 \<le> granularity_ms g"
    and H: "fetched_pages_in_window self name pb limit g params dps"
  shows "\<exists>new params' pages.
           helper_loop self name pb limit g params dps sent
             = Some (sent @ new, Inr (params', dps @ pages))
         \<and> length pages = length new
         \<and> run_spec self name pb g params dps new (Inr (params', dps @ pages))"
  using H
proof (induction "nat (p_end params - p_start params)" arbitrary: params dps sent
    rule: less_induct)
  case less
  note H = less.prems
  let ?cond = "(dps = [] \<or> int (length (last dps)) = limit) \<and> p_end params > p_start params"
  show ?case
  proof (cases ?cond)
    case False
    have "helper_loop self name pb limit g params dps sent
            = Some (sent @ [], Inr (params, dps @ []))"
      using helper_loop_stop[OF False] by simp
    moreover have "run_spec self name pb g params dps [] (Inr (params, dps @ []))"
      using run_spec_stop by simp
    ultimately show ?thesis by (metis list.size(3))
  next
    case True
    then have lt: "p_start params < p_end params" by simp
    from fetched_pages_in_window_first[OF H True] obtain res where
      Inr: "get self name pb params = Inr res" and ne: "res \<noteq> []"
      and ge: "\<forall>dp \<in> set res. p_start params \<le> timestamp dp"
      by blast
    define params2 where
      "params2 = params\<lparr>p_start := timestamp (last res) + granularity_ms g\<rparr>"
    have H2: "fetched_pages_in_window self name pb limit g params2 (dps @ [res])"
      unfolding params2_def by (rule fetched_pages_in_window_step[OF H True Inr ne])
    have "last res \<in> set res" using ne by simp
    then have "p_start params < p_start params2"
      using ge g by (fastforce simp: params2_def)
    then have "nat (p_end params2 - p_start params2) < nat (p_end params - p_start params)"
      using lt by (simp add: params2_def)
    from less.hyps[OF this H2, of "sent @ [params]"] obtain new params' pages where
      h: "helper_loop self name pb limit g params2 (dps @ [res]) (sent @ [params])
            = Some ((sent @ [params]) @ new, Inr (params', (dps @ [res]) @ pages))"
      and l: "length pages = length new"
      and rs: "run_spec self name pb g params2 (dps @ [res]) new
                 (Inr (params', (dps @ [res]) @ pages))"
      by blast
    have a: "helper_loop self name pb limit g params dps sent
            = Some (sent @ (params # new), Inr (params', dps @ (res # pages)))"
      using h unfolding params2_def
      by (simp only: helper_loop_page[OF True Inr ne] append_assoc append.simps)
    have "run_spec self name pb g params dps (params # new)
            (Inr (params', (dps @ [res]) @ pages))"
      using run_spec_step[OF lt ne ge g] rs unfolding params2_def by blast
    then have b: "run_spec self name pb g params dps (params # new)
                    (Inr (params', dps @ (res # pages)))"
      by simp
    have c: "length (res # pages) = length (params # new)" using l by simp
    show ?thesis using a b c by blast
  qed
qed

text \<open>
  C2, as amended. For a window with \<open>start < end\<close> and a step of at least 1 ms, when every
  page the loop fetches is non-empty, ascending and inside the requested window (nothing
  is assumed of a request the loop does not make): the loop returns; every iteration
  fetches one page; the cursor strictly increases from each fetch to the next and to the
  value it has at the end; and the number of iterations \<open>k\<close> satisfies
  \<open>(k - 1) * step < end - start\<close>, that is, it is at most \<open>(end - start) / step\<close> rounded
  up. The bound \<open>(end - start) / step\<close> itself fails when the step does not divide
  the width of the window: \<open>paginator_bound_counterexample\<close> below.
\<close>

theorem paginator_progress:
  assumes lt: "p_start params < p_end params" and g: "1 \<le> granularity_ms g"
    and H: "fetched_pages_in_window self name pb limit g params []"
  shows "\<exists>sent params' dps'.
           helper_loop self name pb limit g params [] [] = Some (sent, Inr (params', dps'))
         \<and> length dps' = length sent
         \<and> map p_start sent @ [p_start params'] = cursors g (p_start params) dps'
         \<and> sorted_wrt (<) (cursors g (p_start params) dps')
         \<and> (int (length sent) - 1) * granularity_ms g < p_end params - p_start params
         \<and> int (length sent)
             \<le> (p_end params - p_start params + granularity_ms g - 1) div granularity_ms g"
proof -
  from helper_loop_total_pages[OF g H, of "[]"]
  obtain new params' dps' where
    hl: "helper_loop self name pb limit g params [] [] = Some (new, Inr (params', dps'))"
    and len: "length dps' = length new"
    and rs: "run_spec self name pb g params [] new (Inr (params', dps'))"
    by auto
  note rs' = rs[unfolded run_spec_def]
  have bound: "(int (length new) - 1) * granularity_ms g < p_end params - p_start params"
  proof (cases "new = []")
    case True
    then show ?thesis using lt g by simp
  next
    case False
    then show ?thesis using rs' by simp
  qed
  from rs' have
    p4: "map p_start new = take (length new) (cursors g (p_start params) dps')"
    and p5: "p_start params' = last (cursors g (p_start params) dps')"
    and p7: "sorted_wrt (<) (cursors g (p_start params) dps')"
    by simp_all
  have lc: "length (cursors g (p_start params) dps') = Suc (length new)"
    by (simp add: cursors_def len)
  have "take (length new) (cursors g (p_start params) dps')
          = butlast (cursors g (p_start params) dps')"
    using lc by (simp add: butlast_conv_take)
  moreover have "cursors g (p_start params) dps' \<noteq> []" by (simp add: cursors_def)
  ultimately have cs: "map p_start new @ [p_start params'] = cursors g (p_start params) dps'"
    using p4 p5 by simp
  have "0 < granularity_ms g" using g by simp
  from ceil_bound[OF this bound]
  have cb: "int (length new)
           \<le> (p_end params - p_start params + granularity_ms g - 1) div granularity_ms g" .
  show ?thesis
    using hl len cs p7 bound cb
    by (intro exI[of _ new] exI[of _ params'] exI[of _ dps'] conjI)
qed

lemma pages_in_window_point_server: "pages_in_window (point_server l) name pb"
  by (simp add: pages_in_window_def point_server_def)

lemma point_server_run:
  "helper_loop (point_server 1) [] True 1 (Some 2) window_0_3 [] []
     = Some ([window_0_3, window_0_3\<lparr>p_start := 2\<rparr>],
             Inr (window_0_3\<lparr>p_start := 4\<rparr>, [[Datapoint 0 ()], [Datapoint 2 ()]]))"
  by (simp add: helper_loop.simps window_0_3_def point_server_def granularity_ms_def)

lemma four_point_server_states:
  "loop_state four_point_server [] True 2 None 0 window_0_4 [] = Some (window_0_4, [])"
  "loop_state four_point_server [] True 2 None (Suc 0) window_0_4 []
     = Some (window_0_4\<lparr>p_start := 2\<rparr>, [[Datapoint 0 (), Datapoint 1 ()]])"
  "loop_state four_point_server [] True 2 None (Suc (Suc 0)) window_0_4 []
     = Some (window_0_4\<lparr>p_start := 4\<rparr>,
             [[Datapoint 0 (), Datapoint 1 ()], [Datapoint 2 (), Datapoint 3 ()]])"
  "loop_state four_point_server [] True 2 None (Suc (Suc (Suc k))) window_0_4 [] = None"
  by (simp_all add: four_point_server_def window_0_4_def granularity_ms_def)

lemma four_point_server_pages:
  "get four_point_server [] True window_0_4 = Inr [Datapoint 0 (), Datapoint 1 ()]"
  "get four_point_server [] True (window_0_4\<lparr>p_start := 2\<rparr>)
     = Inr [Datapoint 2 (), Datapoint 3 ()]"
  by (simp_all add: four_point_server_def window_0_4_def)

lemma fetched_pages_in_window_four_point_server:
  "fetched_pages_in_window four_point_server [] True 2 None window_0_4 []"
  unfolding fetched_pages_in_window_def
proof (intro allI impI)
  fix k p d
  assume s: "loop_state four_point_server [] True 2 None k window_0_4 [] = Some (p, d)"
    and c: "(d = [] \<or> int (length (last d)) = 2) \<and> p_start p < p_end p"
  consider "k = 0" | "k = Suc 0" | "k = Suc (Suc 0)" | k' where "k = Suc (Suc (Suc k'))"
    by (metis not0_implies_Suc)
  then show "\<exists>res. get four_point_server [] True p = Inr res \<and> res \<noteq> []
                \<and> sorted (map timestamp res)
                \<and> (\<forall>dp \<in> set res. p_start p \<le> timestamp dp \<and> timestamp dp < p_end p)"
  proof cases
    case 1
    then have "p = window_0_4" using s four_point_server_states(1) by simp
    then show ?thesis using four_point_server_pages(1) by (simp add: window_0_4_def)
  next
    case 2
    then have "p = window_0_4\<lparr>p_start := 2\<rparr>" using s four_point_server_states(2) by simp
    then show ?thesis using four_point_server_pages(2) by (simp add: window_0_4_def)
  next
    case 3
    then have "p = window_0_4\<lparr>p_start := 4\<rparr>" using s four_point_server_states(3) by simp
    then show ?thesis using c by (simp add: window_0_4_def)
  next
    case 4
    then show ?thesis using s four_point_server_states(4) by simp
  qed
qed

lemma four_point_server_run:
  "helper_loop four_point_server [] True 2 None window_0_4 [] []
     = Some ([window_0_4, window_0_4\<lparr>p_start := 2\<rparr>],
             Inr (window_0_4\<lparr>p_start := 4\<rparr>,
                  [[Datapoint 0 (), Datapoint 1 ()], [Datapoint 2 (), Datapoint 3 ()]]))"
  by (simp add: helper_loop.simps window_0_4_def four_point_server_def granularity_ms_def)

theorem paginator_progress_witness:
  "p_start window_0_4 < p_end window_0_4 \<and> 1 \<le> granularity_ms None
   \<and> fetched_pages_in_window four_point_server [] True 2 None window_0_4 []
   \<and> helper_loop four_point_server [] True 2 None window_0_4 [] []
       = Some ([window_0_4, window_0_4\<lparr>p_start := 2\<rparr>],
               Inr (window_0_4\<lparr>p_start := 4\<rparr>,
                    [[Datapoint 0 (), Datapoint 1 ()], [Datapoint 2 (), Datapoint 3 ()]]))
   \<and> int (length [window_0_4, window_0_4\<lparr>p_start := 2\<rparr>]) \<le> 4"
proof -
  have h: "p_start window_0_4 < p_end window_0_4" "1 \<le> granularity_ms None"
    "fetched_pages_in_window four_point_server [] True 2 None window_0_4 []"
    by (simp_all add: fetched_pages_in_window_four_point_server)
      (simp_all add: window_0_4_def granularity_ms_def)
  from paginator_progress[OF h] obtain sent params' dps' where
    r: "helper_loop four_point_server [] True 2 None window_0_4 [] []
          = Some (sent, Inr (params', dps'))"
    and b: "int (length sent)
             \<le> (p_end window_0_4 - p_start window_0_4 + granularity_ms None - 1)
                  div granularity_ms None"
    by blast
  have "(p_end window_0_4 - p_start window_0_4 + granularity_ms None - 1)
          div granularity_ms None = 4"
    by (simp add: window_0_4_def granularity_ms_def)
  then have "int (length sent) \<le> 4" using b by simp
  moreover have "sent = [window_0_4, window_0_4\<lparr>p_start := 2\<rparr>]"
    using r four_point_server_run by simp
  ultimately show ?thesis using h four_point_server_run by simp
qed

text \<open>
  The window \<open>[0, 3)\<close> at step 2 with limit 1: the server returns the point at 0, then the
  point at 2, both pages full and inside the window. The loop makes two iterations, and
  \<open>(3 - 0) / 2\<close> is less than two.
\<close>

theorem paginator_bound_counterexample:
  "pages_in_window (point_server 1) [] True
   \<and> fetched_pages_in_window (point_server 1) [] True 1 (Some 2) window_0_3 []
   \<and> p_start window_0_3 < p_end window_0_3
   \<and> get_datapoints_helper (point_server 1) [] None (Some 2) 0 3 True False
       = Some ([window_0_3, window_0_3\<lparr>p_start := 2\<rparr>], Inr [Datapoint 0 (), Datapoint 2 ()])
   \<and> \<not> (int (length [window_0_3, window_0_3\<lparr>p_start := 2\<rparr>])
          \<le> (p_end window_0_3 - p_start window_0_3) div granularity_ms (Some 2))
   \<and> \<not> (int (length [window_0_3, window_0_3\<lparr>p_start := 2\<rparr>]) * granularity_ms (Some 2)
          \<le> p_end window_0_3 - p_start window_0_3)"
proof -
  have l: "LIMIT (point_server 1) = 1" by (simp add: point_server_def)
  have "get_datapoints_helper (point_server 1) [] None (Some 2) 0 3 True False
       = Some ([window_0_3, window_0_3\<lparr>p_start := 2\<rparr>], Inr [Datapoint 0 (), Datapoint 2 ()])"
    by (simp add: get_datapoints_helper_def l window_0_3_def
        point_server_run[unfolded window_0_3_def])
  then show ?thesis
    by (simp add: pages_in_window_point_server
        pages_in_window_fetched[OF pages_in_window_point_server])
      (simp add: window_0_3_def granularity_ms_def)
qed

text \<open>
  C4. In every run of the paginator that returns its pages, each fetch after the first is
  issued with a start equal to the last timestamp of the page before it plus the step
  (the granularity in ms, or 1 for raw data). When the step is at least 1 and the server
  returns no point before the requested start, the run returns, and every point of a
  later page is later than the last timestamp of an earlier page: the concatenation of
  the pages, which is what \<open>get_datapoints_helper\<close> returns, never repeats the last
  timestamp of the previous page.
\<close>

theorem next_fetch_after_last_timestamp:
  "(\<forall>sent params' dps'.
      helper_loop self name pb limit g params [] [] = Some (sent, Inr (params', dps')) \<longrightarrow>
      (\<forall>i. Suc i < length sent \<longrightarrow>
           i < length dps'
         \<and> p_start (sent ! Suc i) = timestamp (last (dps' ! i)) + granularity_ms g))
   \<and> (1 \<le> granularity_ms g \<and> only_from_start self name pb \<longrightarrow>
        (\<exists>sent r. helper_loop self name pb limit g params [] [] = Some (sent, r)
           \<and> (case r of
                 Inl e \<Rightarrow> True
               | Inr (params', dps') \<Rightarrow>
                   (\<forall>i j. i < j \<and> j < length dps' \<longrightarrow>
                      (\<forall>dp \<in> set (dps' ! j).
                         timestamp (last (dps' ! i)) < timestamp dp)))))"
proof (intro conjI allI impI)
  fix sent params' dps' i
  assume hl: "helper_loop self name pb limit g params [] [] = Some (sent, Inr (params', dps'))"
    and i: "Suc i < length sent"
  from helper_loop_trace[OF hl] have "trace_spec self name pb g params [] sent (Inr (params', dps'))"
    by simp
  then have len: "length sent \<le> Suc (length dps')"
    and m: "map p_start sent = take (length sent) (cursors g (p_start params) dps')"
    by (simp_all add: trace_spec_def)
  show "i < length dps'" using i len by simp
  then have "cursors g (p_start params) dps' ! Suc i
               = timestamp (last (dps' ! i)) + granularity_ms g"
    by (simp add: cursors_def)
  moreover have "map p_start sent ! Suc i = p_start (sent ! Suc i)" using i by simp
  ultimately show "p_start (sent ! Suc i) = timestamp (last (dps' ! i)) + granularity_ms g"
    using m i by simp
next
  assume "1 \<le> granularity_ms g \<and> only_from_start self name pb"
  then have g: "1 \<le> granularity_ms g" and W: "only_from_start self name pb" by simp_all
  from helper_loop_total[OF W g, of limit params "[]" "[]"]
  obtain new r where hl: "helper_loop self name pb limit g params [] [] = Some (new, r)"
    and rs: "run_spec self name pb g params [] new r"
    by auto
  have "case r of
          Inl e \<Rightarrow> True
        | Inr (params', dps') \<Rightarrow>
            (\<forall>i j. i < j \<and> j < length dps' \<longrightarrow>
               (\<forall>dp \<in> set (dps' ! j). timestamp (last (dps' ! i)) < timestamp dp))"
  proof (cases r)
    case (Inl e)
    then show ?thesis by simp
  next
    case (Inr pd)
    obtain params' dps' where pd: "pd = (params', dps')" by (cases pd)
    from rs Inr pd have
      "sorted_wrt (\<lambda>d d'. \<forall>dp \<in> set d'. timestamp (last d) < timestamp dp) dps'"
      by (simp add: run_spec_def)
    then have "\<forall>i j. i < j \<and> j < length dps' \<longrightarrow>
               (\<forall>dp \<in> set (dps' ! j). timestamp (last (dps' ! i)) < timestamp dp)"
      unfolding sorted_wrt_iff_nth_less by blast
    then show ?thesis unfolding Inr pd by simp
  qed
  with hl show "\<exists>sent r. helper_loop self name pb limit g params [] [] = Some (sent, r)
           \<and> (case r of
                 Inl e \<Rightarrow> True
               | Inr (params', dps') \<Rightarrow>
                   (\<forall>i j. i < j \<and> j < length dps' \<longrightarrow>
                      (\<forall>dp \<in> set (dps' ! j).
                         timestamp (last (dps' ! i)) < timestamp dp)))"
    by blast
qed

lemma only_from_start_point_server: "only_from_start (point_server l) name pb"
  by (simp add: only_from_start_def point_server_def)

theorem next_fetch_after_last_timestamp_witness:
  "helper_loop (point_server 1) [] True 1 (Some 2) window_0_3 [] []
     = Some ([window_0_3, window_0_3\<lparr>p_start := 2\<rparr>],
             Inr (window_0_3\<lparr>p_start := 4\<rparr>, [[Datapoint 0 ()], [Datapoint 2 ()]]))
   \<and> Suc 0 < length [window_0_3, window_0_3\<lparr>p_start := 2\<rparr>]
   \<and> p_start ([window_0_3, window_0_3\<lparr>p_start := 2\<rparr>] ! Suc 0)
       = timestamp (last ([[Datapoint 0 ()], [Datapoint 2 ()]] ! 0)) + granularity_ms (Some 2)
   \<and> 1 \<le> granularity_ms (Some 2) \<and> only_from_start (point_server 1) [] True
   \<and> (0::nat) < 1 \<and> 1 < length [[Datapoint 0 ()], [Datapoint (2::int) ()]]
   \<and> timestamp (last ([[Datapoint 0 ()], [Datapoint 2 ()]] ! 0))
       < timestamp (Datapoint 2 ())"
proof -
  note t = next_fetch_after_last_timestamp[of "point_server 1" "[]" True 1 "Some 2" window_0_3]
  have a: "p_start ([window_0_3, window_0_3\<lparr>p_start := 2\<rparr>] ! Suc 0)
       = timestamp (last ([[Datapoint 0 ()], [Datapoint 2 ()]] ! 0)) + granularity_ms (Some 2)"
    using t[THEN conjunct1, rule_format, OF point_server_run, of 0] by simp
  have h: "1 \<le> granularity_ms (Some 2) \<and> only_from_start (point_server 1) [] True"
    by (simp add: granularity_ms_def only_from_start_point_server)
  from t[THEN conjunct2, rule_format, OF h] obtain sent r where
    "helper_loop (point_server 1) [] True 1 (Some 2) window_0_3 [] [] = Some (sent, r)"
    and c: "case r of
                 Inl e \<Rightarrow> True
               | Inr (params', dps') \<Rightarrow>
                   (\<forall>i j. i < j \<and> j < length dps' \<longrightarrow>
                      (\<forall>dp \<in> set (dps' ! j).
                         timestamp (last (dps' ! i)) < timestamp dp))"
    by blast
  then have "r = Inr (window_0_3\<lparr>p_start := 4\<rparr>, [[Datapoint 0 ()], [Datapoint 2 ()]])"
    using point_server_run by simp
  with c have "\<forall>i j. i < j \<and> j < length [[Datapoint 0 ()], [Datapoint (2::int) ()]] \<longrightarrow>
       (\<forall>dp \<in> set ([[Datapoint 0 ()], [Datapoint 2 ()]] ! j).
          timestamp (last ([[Datapoint 0 ()], [Datapoint 2 ()]] ! i)) < timestamp dp)"
    by simp
  from this[rule_format, of 0 1 "Datapoint 2 ()"]
  have b: "timestamp (last ([[Datapoint 0 ()], [Datapoint 2 ()]] ! 0))
       < timestamp (Datapoint 2 ())"
    by simp
  show ?thesis using point_server_run a h b by simp
qed

section \<open>The coordinator\<close>

lemma pool_map_Some:
  "pool_map f xs = Some rs \<longleftrightarrow> map f xs = map Some rs"
proof (induction xs arbitrary: rs)
  case Nil
  then show ?case by auto
next
  case (Cons x xs)
  show ?case
  proof (cases "f x")
    case None
    then show ?thesis by (cases rs) auto
  next
    case (Some r)
    show ?thesis
    proof (cases "pool_map f xs")
      case None
      then have "\<forall>rs'. map f xs \<noteq> map Some rs'" using Cons.IH by simp
      then show ?thesis using Some None by (cases rs) auto
    next
      case s: (Some rs')
      then show ?thesis using Some Cons.IH[of rs'] by (cases rs) auto
    qed
  qed
qed

lemma pool_map_None:
  "pool_map f xs = None \<longleftrightarrow> (\<exists>x \<in> set xs. f x = None)"
  by (induction xs) (auto split: option.splits)

lemma collect_map_Inr: "collect (map Inr xs) = Inr xs"
  by (induction xs) auto

lemma collect_Inr_D: "collect rs = Inr xs \<Longrightarrow> rs = map Inr xs"
  by (induction rs arbitrary: xs rule: collect.induct) (auto split: sum.splits)

lemma collect_Inr: "collect rs = Inr xs \<longleftrightarrow> rs = map Inr xs"
  using collect_map_Inr collect_Inr_D by blast

lemma collect_Inl:
  "collect rs = Inl e \<Longrightarrow> Inl e \<in> set rs"
  by (induction rs rule: collect.induct) (auto split: sum.splits)

lemma collect_fails:
  assumes "Inl e \<in> set rs"
  shows "\<exists>e'. collect rs = Inl e'"
proof (cases "collect rs")
  case (Inl a)
  then show ?thesis by simp
next
  case (Inr xs)
  then have "rs = map Inr xs" by (simp add: collect_Inr)
  then show ?thesis using assms by auto
qed

lemma get_datapoints_no_limit:
  assumes "kw_limit kwargs = None"
    and "steps (end - start) (worker_count self kwargs) (granularity_ms granularity) = Inr n"
    and "step_size (end - start) n (granularity_ms granularity) = Inr sz"
    and "0 < n"
  shows "get_datapoints self name start end aggregates granularity kwargs =
     (case pool_map
             (\<lambda>(s, e). get_datapoints_helper self name aggregates granularity s e
                 (case kw_protobuf kwargs of None \<Rightarrow> True | Some b \<Rightarrow> b)
                 (case kw_include_outside_points kwargs of None \<Rightarrow> False | Some b \<Rightarrow> b))
             (args (step_starts start n sz) sz) of
        None \<Rightarrow> None
      | Some rs \<Rightarrow>
          Some (map fst rs,
                case collect (map snd rs) of
                  Inl e \<Rightarrow> Inl e
                | Inr ds \<Rightarrow> Inr (concat ds)))"
  using assms by (simp add: get_datapoints_def fetch_windows_def Let_def)

lemma get_datapoints_returns:
  assumes "kw_limit kwargs = None"
    and "get_datapoints self name start end aggregates granularity kwargs = Some (sents, Inr dps)"
  shows "\<exists>n sz. steps (end - start) (worker_count self kwargs) (granularity_ms granularity) = Inr n
           \<and> step_size (end - start) n (granularity_ms granularity) = Inr sz \<and> 0 < n"
  using assms by (auto simp: get_datapoints_def fetch_windows_def Let_def split: sum.splits if_splits)







lemma empty_server_helper:
  assumes "s < e"
  shows "get_datapoints_helper empty_server name aggregates g s e pb iop =
     Some ([\<lparr>p_aggregates = aggregates, p_granularity = g,
              p_limit = (if aggregates = None then 100000 else 10000),
              p_start = s, p_end = e, p_includeOutsidePoints = iop\<rparr>], Inr [])"
  using assms
  by (simp add: get_datapoints_helper_def Let_def helper_loop_empty empty_server_def)



lemma args_snoc:
  "args (step_starts start (int (Suc k)) sz) sz
     = args (step_starts start (int k) sz) sz @ [(start + int k * sz, start + int k * sz + sz)]"
proof -
  have "[0..int (Suc k) - 1] = [0..int k - 1] @ [int k]"
    using upto_rec2[of 0 "int k"] by simp
  then show ?thesis by (simp add: args_def step_starts_def)
qed

lemma args_union_nat:
  fixes sz :: int
  assumes "0 \<le> sz"
  shows "(\<Union>(s, e) \<in> set (args (step_starts start (int k) sz) sz). {s..<e})
           = {start ..< start + int k * sz}"
proof (induction k)
  case 0
  then show ?case by (simp add: args_def step_starts_def)
next
  case (Suc k)
  have "0 \<le> int k * sz" using assms by simp
  then have "{start ..< start + int k * sz} \<union> {start + int k * sz ..< start + int k * sz + sz}
          = {start ..< start + int k * sz + sz}"
    using assms by (intro ivl_disj_un) simp_all
  then show ?case
    unfolding args_snoc using Suc by (simp add: distrib_right Un_commute add.commute add.left_commute)
qed

lemma args_union:
  fixes sz :: int
  assumes "0 \<le> sz" "0 \<le> n"
  shows "(\<Union>(s, e) \<in> set (args (step_starts start n sz) sz). {s..<e}) = {start ..< start + n * sz}"
  using args_union_nat[OF assms(1), of start "nat n"] assms(2) by simp

lemma helper_loop_first:
  assumes lt: "p_start params < p_end params"
    and hl: "helper_loop self name pb limit g params [] sent = Some y"
  shows "\<exists>new. fst y = sent @ params # new"
proof -
  have c: "([] = [] \<or> int (length (last ([]::'a datapoint list list))) = limit)
             \<and> p_end params > p_start params"
    using lt by simp
  show ?thesis
  proof (cases "get self name pb params")
    case (Inl e)
    then show ?thesis using helper_loop_error[OF c Inl, of g sent] hl by simp
  next
    case (Inr res)
    show ?thesis
    proof (cases "res = []")
      case True
      then show ?thesis using helper_loop_empty[OF c Inr[unfolded True], of g sent] hl by simp
    next
      case False
      from hl have "helper_loop self name pb limit g
               (params\<lparr>p_start := timestamp (last res) + granularity_ms g\<rparr>)
               ([] @ [res]) (sent @ [params]) = Some y"
        by (simp only: helper_loop_page[OF c Inr False])
      from helper_loop_trace[OF this] show ?thesis by auto
    qed
  qed
qed

lemma helper_requests:
  assumes "get_datapoints_helper self name aggregates g s e pb iop = Some (sent, r)"
  shows "(\<forall>p \<in> set sent. p_start p < p_end p \<and> p_end p = e)
       \<and> (s < e \<longrightarrow> sent \<noteq> [] \<and> p_start (hd sent) = s)"
proof -
  define params where "params = \<lparr>p_aggregates = aggregates, p_granularity = g,
      p_limit = (if aggregates = None then LIMIT self else LIMIT_AGG self),
      p_start = s, p_end = e, p_includeOutsidePoints = iop\<rparr>"
  from assms obtain r' where
    hl: "helper_loop self name (pb \<and> aggregates = None)
           (if aggregates = None then LIMIT self else LIMIT_AGG self) g params [] []
         = Some (sent, r')"
    by (auto simp: get_datapoints_helper_def Let_def params_def split: option.splits)
  from helper_loop_trace[OF hl] have
    t: "\<forall>p \<in> set sent. p\<lparr>p_start := p_start params\<rparr> = params \<and> p_start p < p_end p"
    by (simp add: trace_spec_def)
  have "p_end p = e" if "p \<in> set sent" for p
  proof -
    have "p\<lparr>p_start := p_start params\<rparr> = params" using t that by simp
    then have "p_end (p\<lparr>p_start := p_start params\<rparr>) = p_end params" by simp
    then show ?thesis by (simp add: params_def)
  qed
  moreover have "sent \<noteq> [] \<and> p_start (hd sent) = s" if "s < e"
  proof -
    have "p_start params < p_end params" using that by (simp add: params_def)
    from helper_loop_first[OF this hl] show ?thesis by (auto simp: params_def)
  qed
  ultimately show ?thesis using t by blast
qed

lemma get_datapoints_tasks:
  assumes nl: "kw_limit kwargs = None"
    and st: "steps (end - start) (worker_count self kwargs) (granularity_ms granularity) = Inr n"
    and ss: "step_size (end - start) n (granularity_ms granularity) = Inr sz"
    and n: "0 < n"
    and ret: "get_datapoints self name start end aggregates granularity kwargs = Some (sents, r)"
  shows "\<exists>rs. length rs = nat n \<and> sents = map fst rs
           \<and> r = (case collect (map snd rs) of Inl e \<Rightarrow> Inl e | Inr ds \<Rightarrow> Inr (concat ds))
           \<and> (\<forall>i < nat n.
                get_datapoints_helper self name aggregates granularity
                  (start + int i * sz) (start + int i * sz + sz)
                  (case kw_protobuf kwargs of None \<Rightarrow> True | Some b \<Rightarrow> b)
                  (case kw_include_outside_points kwargs of None \<Rightarrow> False | Some b \<Rightarrow> b)
                = Some (rs ! i))"
proof -
  let ?F = "\<lambda>(s, e). get_datapoints_helper self name aggregates granularity s e
                 (case kw_protobuf kwargs of None \<Rightarrow> True | Some b \<Rightarrow> b)
                 (case kw_include_outside_points kwargs of None \<Rightarrow> False | Some b \<Rightarrow> b)"
  let ?args = "args (step_starts start n sz) sz"
  from ret[unfolded get_datapoints_no_limit[OF nl st ss n]] obtain rs where
    pm: "pool_map ?F ?args = Some rs" and s: "sents = map fst rs"
    and r: "r = (case collect (map snd rs) of Inl e \<Rightarrow> Inl e | Inr ds \<Rightarrow> Inr (concat ds))"
    by (auto split: option.splits)
  from pm have m: "map ?F ?args = map Some rs" by (simp add: pool_map_Some)
  then have "length ?args = length rs" using length_map by metis
  then have len: "length rs = nat n" by (simp add: args_length)
  have "?F (?args ! i) = Some (rs ! i)" if "i < nat n" for i
  proof -
    have "map ?F ?args ! i = map Some rs ! i" using m by simp
    then show ?thesis using that len by (simp add: args_length)
  qed
  then have "\<forall>i < nat n.
                get_datapoints_helper self name aggregates granularity
                  (start + int i * sz) (start + int i * sz + sz)
                  (case kw_protobuf kwargs of None \<Rightarrow> True | Some b \<Rightarrow> b)
                  (case kw_include_outside_points kwargs of None \<Rightarrow> False | Some b \<Rightarrow> b)
                = Some (rs ! i)"
    by (simp add: args_nth)
  then show ?thesis using len s r by blast
qed

lemma get_datapoints_fetch_windows:
  assumes "kw_limit kwargs = None"
    and "steps (end - start) (worker_count self kwargs) (granularity_ms granularity) = Inr n"
    and "step_size (end - start) n (granularity_ms granularity) = Inr sz"
  shows "get_datapoints self name start end aggregates granularity kwargs
           = fetch_windows self name aggregates granularity
               (case kw_protobuf kwargs of None \<Rightarrow> True | Some b \<Rightarrow> b)
               (case kw_include_outside_points kwargs of None \<Rightarrow> False | Some b \<Rightarrow> b)
               start n sz"
  using assms by (simp add: get_datapoints_def Let_def)

lemma fetch_windows_tasks:
  assumes n: "0 < n"
    and ret: "fetch_windows self name aggregates granularity pb iop start n sz = Some (sents, r)"
  shows "\<exists>rs. length rs = nat n \<and> sents = map fst rs
           \<and> (\<forall>i < nat n.
                get_datapoints_helper self name aggregates granularity
                  (start + int i * sz) (start + int i * sz + sz) pb iop
                = Some (rs ! i))"
proof -
  define F where "F = (\<lambda>(s, e). get_datapoints_helper self name aggregates granularity s e pb iop)"
  let ?args = "args (step_starts start n sz) sz"
  from ret n obtain rs where
    pm: "pool_map F ?args = Some rs" and s: "sents = map fst rs"
    unfolding fetch_windows_def F_def by (auto split: option.splits)
  from pm have m: "map F ?args = map Some rs" by (simp add: pool_map_Some)
  then have "length ?args = length rs" using length_map by metis
  then have len: "length rs = nat n" by (simp add: args_length)
  have "F (?args ! i) = Some (rs ! i)" if "i < nat n" for i
  proof -
    have "map F ?args ! i = map Some rs ! i" using m by simp
    then show ?thesis using that len by (simp add: args_length)
  qed
  then have "\<forall>i < nat n.
                get_datapoints_helper self name aggregates granularity
                  (start + int i * sz) (start + int i * sz + sz) pb iop
                = Some (rs ! i)"
    by (simp add: args_nth F_def)
  then show ?thesis using len s by blast
qed

lemma window_index:
  fixes t start sz n :: int
  assumes "0 < sz" "start \<le> t" "t < start + n * sz"
  shows "\<exists>i. i < nat n \<and> start + int i * sz \<le> t \<and> t < start + (int i + 1) * sz"
proof -
  define q where "q = (t - start) div sz"
  have q0: "0 \<le> q" using assms(1,2) by (simp add: q_def pos_imp_zdiv_nonneg_iff)
  have e: "q * sz + (t - start) mod sz = t - start" by (simp add: q_def)
  have m: "0 \<le> (t - start) mod sz" "(t - start) mod sz < sz" using assms(1) by simp_all
  have lo: "start + q * sz \<le> t" using e m(1) by linarith
  have hi: "t < start + (q + 1) * sz" using e m(2) by (simp add: distrib_right)
  have "q < n"
  proof (rule ccontr)
    assume "\<not> q < n"
    then have "n * sz \<le> q * sz" using assms(1) by (intro mult_right_mono) simp_all
    then show False using lo assms(3) by linarith
  qed
  then have "nat q < nat n" using q0 by simp
  moreover have "int (nat q) = q" using q0 by simp
  ultimately show ?thesis using lo hi by metis
qed

lemma args_union_nonpos:
  fixes sz :: int
  assumes "sz \<le> 0"
  shows "(\<Union>(s, e) \<in> set (args starts sz) . {s..<e}) = {}"
  using assms by (auto simp: args_def)

lemma helper_no_window:
  assumes "e \<le> s"
  shows "get_datapoints_helper self name aggregates g s e pb iop = Some ([], Inr [])"
  using assms by (simp add: get_datapoints_helper_def Let_def helper_loop_stop)

text \<open>
  C9. Lines 201-202 make the sub-windows from \<open>start\<close>, \<open>steps\<close> and \<open>step_size\<close> alone, so
  for \<open>n\<close> steps of a size \<open>sz\<close>, whatever the rounding of line 199 made it: the union of
  the sub-windows is exactly \<open>[start, start + n * sz)\<close>. A call of \<open>get_datapoints\<close> without
  a user-defined limit whose \<open>steps\<close> is \<open>n\<close> and whose \<open>step_size\<close> is \<open>sz\<close> is the fetch of
  these windows, and \<open>end\<close> has no other part in it. When the fetch returns, it has run one
  paginator for each sub-window, in order; the first request of the paginator of
  sub-window \<open>i\<close> is for the whole sub-window (there is one when the sub-window is not
  empty), and every request of it ends at \<open>start + (i + 1) * sz\<close>: the last sub-window is
  not extended to \<open>end\<close>. Every timestamp of
  \<open>[start, start + n * sz)\<close> lies in the range of a request, and no request reaches a
  timestamp at or after \<open>start + n * sz\<close>. So the timestamps of \<open>[start + n * sz, end)\<close> are
  never requested, and the timestamps at or after \<open>end\<close> and before \<open>start + n * sz\<close> are.
\<close>

theorem fetched_windows:
  assumes n: "0 < n"
  shows "(\<Union>(s, e) \<in> set (args (step_starts start n sz) sz). {s..<e}) = {start ..< start + n * sz}
    \<and> (kw_limit kwargs = None
         \<and> steps (end - start) (worker_count self kwargs) (granularity_ms granularity) = Inr n
         \<and> step_size (end - start) n (granularity_ms granularity) = Inr sz \<longrightarrow>
       get_datapoints self name start end aggregates granularity kwargs
         = fetch_windows self name aggregates granularity
             (case kw_protobuf kwargs of None \<Rightarrow> True | Some b \<Rightarrow> b)
             (case kw_include_outside_points kwargs of None \<Rightarrow> False | Some b \<Rightarrow> b)
             start n sz)
    \<and> (\<forall>sents r.
          fetch_windows self name aggregates granularity pb iop start n sz = Some (sents, r) \<longrightarrow>
            length sents = nat n
          \<and> (\<forall>i < length sents.
                (0 < sz \<longrightarrow> sents ! i \<noteq> [] \<and> p_start (hd (sents ! i)) = start + int i * sz)
              \<and> (\<forall>p \<in> set (sents ! i).
                    p_start p < p_end p \<and> p_end p = start + (int i + 1) * sz))
          \<and> (\<forall>p \<in> set (concat sents). p_end p \<le> start + n * sz)
          \<and> {start ..< start + n * sz} \<subseteq> (\<Union>p \<in> set (concat sents). {p_start p ..< p_end p})
          \<and> (\<forall>t. start + n * sz \<le> t \<and> t < end \<longrightarrow>
                t \<notin> (\<Union>p \<in> set (concat sents). {p_start p ..< p_end p}))
          \<and> (\<forall>t. start \<le> t \<and> end \<le> t \<and> t < start + n * sz \<longrightarrow>
                t \<in> (\<Union>p \<in> set (concat sents). {p_start p ..< p_end p})))"
proof -
  have un: "(\<Union>(s, e) \<in> set (args (step_starts start n sz) sz). {s..<e})
              = {start ..< start + n * sz}"
  proof (cases "0 \<le> sz")
    case True
    then show ?thesis using args_union[OF True, of n start] n by simp
  next
    case False
    then have "n * sz \<le> 0" using n by (simp add: mult_le_0_iff)
    then have "{start ..< start + n * sz} = {}" by simp
    then show ?thesis using args_union_nonpos[of sz] False by simp
  qed
  have link: "kw_limit kwargs = None
         \<and> steps (end - start) (worker_count self kwargs) (granularity_ms granularity) = Inr n
         \<and> step_size (end - start) n (granularity_ms granularity) = Inr sz \<longrightarrow>
       get_datapoints self name start end aggregates granularity kwargs
         = fetch_windows self name aggregates granularity
             (case kw_protobuf kwargs of None \<Rightarrow> True | Some b \<Rightarrow> b)
             (case kw_include_outside_points kwargs of None \<Rightarrow> False | Some b \<Rightarrow> b)
             start n sz"
    using get_datapoints_fetch_windows by blast
  have req: "length sents = nat n
          \<and> (\<forall>i < length sents.
                (0 < sz \<longrightarrow> sents ! i \<noteq> [] \<and> p_start (hd (sents ! i)) = start + int i * sz)
              \<and> (\<forall>p \<in> set (sents ! i).
                    p_start p < p_end p \<and> p_end p = start + (int i + 1) * sz))
          \<and> (\<forall>p \<in> set (concat sents). p_end p \<le> start + n * sz)
          \<and> {start ..< start + n * sz} \<subseteq> (\<Union>p \<in> set (concat sents). {p_start p ..< p_end p})
          \<and> (\<forall>t. start + n * sz \<le> t \<and> t < end \<longrightarrow>
                t \<notin> (\<Union>p \<in> set (concat sents). {p_start p ..< p_end p}))
          \<and> (\<forall>t. start \<le> t \<and> end \<le> t \<and> t < start + n * sz \<longrightarrow>
                t \<in> (\<Union>p \<in> set (concat sents). {p_start p ..< p_end p}))"
    if ret: "fetch_windows self name aggregates granularity pb iop start n sz = Some (sents, r)"
    for sents r
  proof -
    from fetch_windows_tasks[OF n ret] obtain rs where
      len: "length rs = nat n" and s: "sents = map fst rs"
      and h: "\<forall>i < nat n.
                get_datapoints_helper self name aggregates granularity
                  (start + int i * sz) (start + int i * sz + sz) pb iop
                = Some (rs ! i)"
      by blast
    have l: "length sents = nat n" using len s by simp
    have task: "get_datapoints_helper self name aggregates granularity
                  (start + int i * sz) (start + int i * sz + sz) pb iop
              = Some (sents ! i, snd (rs ! i))"
      if i: "i < length sents" for i
      using h i l s len by simp
    have emp: "concat sents = []" if "sz \<le> 0"
    proof -
      have "sents ! i = []" if i: "i < length sents" for i
      proof -
        have "get_datapoints_helper self name aggregates granularity
                (start + int i * sz) (start + int i * sz + sz) pb iop = Some ([], Inr [])"
          using \<open>sz \<le> 0\<close> by (intro helper_no_window) simp
        then show ?thesis using task[OF i] by simp
      qed
      then have "\<forall>xs \<in> set sents. xs = []" by (auto simp: in_set_conv_nth)
      then show ?thesis by simp
    qed
    have per: "(0 < sz \<longrightarrow> sents ! i \<noteq> [] \<and> p_start (hd (sents ! i)) = start + int i * sz)
              \<and> (\<forall>p \<in> set (sents ! i).
                    p_start p < p_end p \<and> p_end p = start + (int i + 1) * sz)"
      if i: "i < length sents" for i
    proof -
      from helper_requests[OF task[OF i]] have
        "\<forall>p \<in> set (sents ! i). p_start p < p_end p \<and> p_end p = start + int i * sz + sz"
        and f: "start + int i * sz < start + int i * sz + sz \<longrightarrow>
                  sents ! i \<noteq> [] \<and> p_start (hd (sents ! i)) = start + int i * sz"
        by blast+
      moreover have "start + int i * sz + sz = start + (int i + 1) * sz"
        by (simp add: distrib_right)
      ultimately show ?thesis by auto
    qed
    have ub: "p_end p \<le> start + n * sz" if "p \<in> set (concat sents)" for p
    proof -
      have sz0: "0 \<le> sz" using emp that by fastforce
      from that obtain xs where "xs \<in> set sents" and pxs: "p \<in> set xs" by auto
      then obtain i where i: "i < length sents" and "xs = sents ! i"
        by (auto simp: in_set_conv_nth)
      with pxs have p: "p \<in> set (sents ! i)" by simp
      have "int i + 1 \<le> n" using i l by simp
      then have "(int i + 1) * sz \<le> n * sz" using sz0 by (rule mult_right_mono)
      then show ?thesis using per[OF i] p by simp
    qed
    have cover: "t \<in> (\<Union>p \<in> set (concat sents). {p_start p ..< p_end p})"
      if t: "start \<le> t" "t < start + n * sz" for t
    proof -
      have sz: "0 < sz"
      proof (rule ccontr)
        assume "\<not> 0 < sz"
        then have "n * sz \<le> 0" using n by (simp add: mult_le_0_iff)
        then show False using t by simp
      qed
      from window_index[OF sz t] obtain i where
        i: "i < nat n" and lo: "start + int i * sz \<le> t" and hi: "t < start + (int i + 1) * sz"
        by blast
      have il: "i < length sents" using i l by simp
      note pi = per[OF il]
      have "hd (sents ! i) \<in> set (sents ! i)" using pi sz by simp
      moreover have "sents ! i \<in> set sents" using il by simp
      ultimately have m: "hd (sents ! i) \<in> set (concat sents)" by auto
      have "p_start (hd (sents ! i)) \<le> t" using pi lo sz by simp
      moreover have "t < p_end (hd (sents ! i))"
        using pi hi \<open>hd (sents ! i) \<in> set (sents ! i)\<close> by simp
      ultimately show ?thesis using m by auto
    qed
    have c4: "{start ..< start + n * sz} \<subseteq> (\<Union>p \<in> set (concat sents). {p_start p ..< p_end p})"
      using cover by auto
    have c5: "\<forall>t. start + n * sz \<le> t \<and> t < end \<longrightarrow>
                t \<notin> (\<Union>p \<in> set (concat sents). {p_start p ..< p_end p})"
      using ub by fastforce
    have c6: "\<forall>t. start \<le> t \<and> end \<le> t \<and> t < start + n * sz \<longrightarrow>
                t \<in> (\<Union>p \<in> set (concat sents). {p_start p ..< p_end p})"
      using cover by blast
    show ?thesis using l per ub c4 c5 c6 by blast
  qed
  have req': "\<forall>sents r.
          fetch_windows self name aggregates granularity pb iop start n sz = Some (sents, r) \<longrightarrow>
            length sents = nat n
          \<and> (\<forall>i < length sents.
                (0 < sz \<longrightarrow> sents ! i \<noteq> [] \<and> p_start (hd (sents ! i)) = start + int i * sz)
              \<and> (\<forall>p \<in> set (sents ! i).
                    p_start p < p_end p \<and> p_end p = start + (int i + 1) * sz))
          \<and> (\<forall>p \<in> set (concat sents). p_end p \<le> start + n * sz)
          \<and> {start ..< start + n * sz} \<subseteq> (\<Union>p \<in> set (concat sents). {p_start p ..< p_end p})
          \<and> (\<forall>t. start + n * sz \<le> t \<and> t < end \<longrightarrow>
                t \<notin> (\<Union>p \<in> set (concat sents). {p_start p ..< p_end p}))
          \<and> (\<forall>t. start \<le> t \<and> end \<le> t \<and> t < start + n * sz \<longrightarrow>
                t \<in> (\<Union>p \<in> set (concat sents). {p_start p ..< p_end p}))"
    using req by (intro allI impI)
  show ?thesis
    using un link req' by (intro conjI)
qed

lemma empty_server_three_workers:
  "get_datapoints empty_server [] 0 10 None None three_workers =
       Some ([[\<lparr>p_aggregates = None, p_granularity = None, p_limit = 100000,
                 p_start = 0, p_end = 3, p_includeOutsidePoints = False\<rparr>],
              [\<lparr>p_aggregates = None, p_granularity = None, p_limit = 100000,
                 p_start = 3, p_end = 6, p_includeOutsidePoints = False\<rparr>],
              [\<lparr>p_aggregates = None, p_granularity = None, p_limit = 100000,
                 p_start = 6, p_end = 9, p_includeOutsidePoints = False\<rparr>]], Inr [])"
proof -
  have nl: "kw_limit three_workers = None" by (simp add: three_workers_def)
  have st: "steps (10 - 0) (worker_count empty_server three_workers) (granularity_ms None) = Inr 3"
    by (simp add: steps_def int_truediv_def worker_count_def three_workers_def granularity_ms_def)
  have ss: "step_size (10 - 0) 3 (granularity_ms None) = Inr 3"
    by (simp add: step_size_def int_truediv_def round_to_nearest_def granularity_ms_def)
  have a: "args (step_starts 0 3 3) 3 = [(0, 3), (3, 6), (6, 9)]"
    by (simp add: args_def step_starts_def upto.simps)
  have k: "kw_protobuf three_workers = None" "kw_include_outside_points three_workers = None"
    by (simp_all add: three_workers_def)
  have z: "(0::int) < 3" by simp
  have pm: "pool_map (\<lambda>(s, e). get_datapoints_helper empty_server [] None None s e True False)
                [(0, 3), (3, 6), (6, 9)] = Some [
       ([\<lparr>p_aggregates = None, p_granularity = None, p_limit = 100000,
                 p_start = 0, p_end = 3, p_includeOutsidePoints = False\<rparr>], Inr []),
       ([\<lparr>p_aggregates = None, p_granularity = None, p_limit = 100000,
                 p_start = 3, p_end = 6, p_includeOutsidePoints = False\<rparr>], Inr []),
       ([\<lparr>p_aggregates = None, p_granularity = None, p_limit = 100000,
                 p_start = 6, p_end = 9, p_includeOutsidePoints = False\<rparr>], Inr [])]"
    by (simp add: empty_server_helper)
  show ?thesis
    using get_datapoints_no_limit[OF nl st ss z, of "[]" None, unfolded a k option.case pm]
    by simp
qed

lemma empty_server_overshoot:
  "fetch_windows empty_server [] (Some [''avg'']) (Some 10000) True False 0 3 30000 =
       Some ([[\<lparr>p_aggregates = Some [''avg''], p_granularity = Some 10000, p_limit = 10000,
                 p_start = 0, p_end = 30000, p_includeOutsidePoints = False\<rparr>],
              [\<lparr>p_aggregates = Some [''avg''], p_granularity = Some 10000, p_limit = 10000,
                 p_start = 30000, p_end = 60000, p_includeOutsidePoints = False\<rparr>],
              [\<lparr>p_aggregates = Some [''avg''], p_granularity = Some 10000, p_limit = 10000,
                 p_start = 60000, p_end = 90000, p_includeOutsidePoints = False\<rparr>]], Inr [])"
proof -
  have a: "args (step_starts 0 3 30000) 30000 = [(0, 30000), (30000, 60000), (60000, 90000)]"
    by (simp add: args_def step_starts_def upto.simps)
  have pm: "pool_map (\<lambda>(s, e). get_datapoints_helper empty_server [] (Some [''avg''])
                                   (Some 10000) s e True False)
                [(0, 30000), (30000, 60000), (60000, 90000)] = Some [
       ([\<lparr>p_aggregates = Some [''avg''], p_granularity = Some 10000, p_limit = 10000,
                 p_start = 0, p_end = 30000, p_includeOutsidePoints = False\<rparr>], Inr []),
       ([\<lparr>p_aggregates = Some [''avg''], p_granularity = Some 10000, p_limit = 10000,
                 p_start = 30000, p_end = 60000, p_includeOutsidePoints = False\<rparr>], Inr []),
       ([\<lparr>p_aggregates = Some [''avg''], p_granularity = Some 10000, p_limit = 10000,
                 p_start = 60000, p_end = 90000, p_includeOutsidePoints = False\<rparr>], Inr [])]"
    by (simp add: empty_server_helper)
  show ?thesis
    unfolding fetch_windows_def a pm by simp
qed

theorem fetched_windows_witness:
  "kw_limit three_workers = None
   \<and> steps (10 - 0) (worker_count empty_server three_workers) (granularity_ms None) = Inr 3
   \<and> step_size (10 - 0) 3 (granularity_ms None) = Inr 3
   \<and> (\<Union>(s, e) \<in> set (args (step_starts 0 3 3) 3). {s..<e}) = {0 ..< 0 + 3 * 3}
   \<and> get_datapoints empty_server [] 0 10 None None three_workers =
       Some ([[\<lparr>p_aggregates = None, p_granularity = None, p_limit = 100000,
                 p_start = 0, p_end = 3, p_includeOutsidePoints = False\<rparr>],
              [\<lparr>p_aggregates = None, p_granularity = None, p_limit = 100000,
                 p_start = 3, p_end = 6, p_includeOutsidePoints = False\<rparr>],
              [\<lparr>p_aggregates = None, p_granularity = None, p_limit = 100000,
                 p_start = 6, p_end = 9, p_includeOutsidePoints = False\<rparr>]], Inr [])
   \<and> (0::int) + 3 * 3 \<le> 9 \<and> (9::int) < 10
   \<and> 9 \<notin> (\<Union>p \<in> set (concat
              [[\<lparr>p_aggregates = None, p_granularity = None, p_limit = 100000,
                 p_start = 0, p_end = 3, p_includeOutsidePoints = False\<rparr>],
               [\<lparr>p_aggregates = None, p_granularity = None, p_limit = 100000,
                 p_start = 3, p_end = 6, p_includeOutsidePoints = False\<rparr>],
               [\<lparr>p_aggregates = None, p_granularity = None, p_limit = 100000,
                 p_start = 6, p_end = 9, p_includeOutsidePoints = False\<rparr>]]).
             {p_start p ..< p_end p})
   \<and> fetch_windows empty_server [] (Some [''avg'']) (Some 10000) True False 0 3 30000 =
       Some ([[\<lparr>p_aggregates = Some [''avg''], p_granularity = Some 10000, p_limit = 10000,
                 p_start = 0, p_end = 30000, p_includeOutsidePoints = False\<rparr>],
              [\<lparr>p_aggregates = Some [''avg''], p_granularity = Some 10000, p_limit = 10000,
                 p_start = 30000, p_end = 60000, p_includeOutsidePoints = False\<rparr>],
              [\<lparr>p_aggregates = Some [''avg''], p_granularity = Some 10000, p_limit = 10000,
                 p_start = 60000, p_end = 90000, p_includeOutsidePoints = False\<rparr>]], Inr [])
   \<and> (0::int) \<le> 80000 \<and> (80000::int) < 0 + 3 * 30000
   \<and> 80000 \<in> (\<Union>p \<in> set (concat
              [[\<lparr>p_aggregates = Some [''avg''], p_granularity = Some 10000, p_limit = 10000,
                 p_start = 0, p_end = 30000, p_includeOutsidePoints = False\<rparr>],
               [\<lparr>p_aggregates = Some [''avg''], p_granularity = Some 10000, p_limit = 10000,
                 p_start = 30000, p_end = 60000, p_includeOutsidePoints = False\<rparr>],
               [\<lparr>p_aggregates = Some [''avg''], p_granularity = Some 10000, p_limit = 10000,
                 p_start = 60000, p_end = 90000, p_includeOutsidePoints = False\<rparr>]]).
             {p_start p ..< p_end p})"
proof -
  have nl: "kw_limit three_workers = None" by (simp add: three_workers_def)
  have st: "steps (10 - 0) (worker_count empty_server three_workers) (granularity_ms None) = Inr 3"
    by (simp add: steps_def int_truediv_def worker_count_def three_workers_def granularity_ms_def)
  have ss: "step_size (10 - 0) 3 (granularity_ms None) = Inr 3"
    by (simp add: step_size_def int_truediv_def round_to_nearest_def granularity_ms_def)
  have k: "kw_protobuf three_workers = None" "kw_include_outside_points three_workers = None"
    by (simp_all add: three_workers_def)
  have z: "(0::int) < 3" "(0::int) < 30000" by simp_all
  note a = fetched_windows[OF z(1), of 0 3 three_workers 10 empty_server None "[]" None
      True False]
  note un = a[THEN conjunct1]
  have link: "get_datapoints empty_server [] 0 10 None None three_workers
                = fetch_windows empty_server [] None None True False 0 3 3"
    using a[THEN conjunct2, THEN conjunct1] nl st ss k by simp
  have under: "9 \<notin> (\<Union>p \<in> set (concat
              [[\<lparr>p_aggregates = None, p_granularity = None, p_limit = 100000,
                 p_start = 0, p_end = 3, p_includeOutsidePoints = False\<rparr>],
               [\<lparr>p_aggregates = None, p_granularity = None, p_limit = 100000,
                 p_start = 3, p_end = 6, p_includeOutsidePoints = False\<rparr>],
               [\<lparr>p_aggregates = None, p_granularity = None, p_limit = 100000,
                 p_start = 6, p_end = 9, p_includeOutsidePoints = False\<rparr>]]).
             {p_start p ..< p_end p})"
    using a[THEN conjunct2, THEN conjunct2, rule_format,
        OF empty_server_three_workers[unfolded link]]
    by simp
  note b = fetched_windows[OF z(1), of 0 30000 three_workers 80000 empty_server "Some 10000"
      "[]" "Some [''avg'']" True False]
  have over: "80000 \<in> (\<Union>p \<in> set (concat
              [[\<lparr>p_aggregates = Some [''avg''], p_granularity = Some 10000, p_limit = 10000,
                 p_start = 0, p_end = 30000, p_includeOutsidePoints = False\<rparr>],
               [\<lparr>p_aggregates = Some [''avg''], p_granularity = Some 10000, p_limit = 10000,
                 p_start = 30000, p_end = 60000, p_includeOutsidePoints = False\<rparr>],
               [\<lparr>p_aggregates = Some [''avg''], p_granularity = Some 10000, p_limit = 10000,
                 p_start = 60000, p_end = 90000, p_includeOutsidePoints = False\<rparr>]]).
             {p_start p ..< p_end p})"
    using b[THEN conjunct2, THEN conjunct2, rule_format, OF empty_server_overshoot]
    by simp
  have m: "(0::int) + 3 * 3 \<le> 9" "(9::int) < 10" "(0::int) \<le> 80000"
    "(80000::int) < 0 + 3 * 30000"
    by simp_all
  show ?thesis
    by (intro conjI nl st ss un empty_server_three_workers under empty_server_overshoot over m)
qed

lemma list_all2_member:
  assumes "list_all2 P xs ys" "y \<in> set ys"
  shows "\<exists>x \<in> set xs. P x y"
  using assms by (induction rule: list_all2_induct) auto

lemma sorted_concat_windows:
  assumes "list_all2 (\<lambda>w d. sorted_wrt (<) (map timestamp d)
                       \<and> (\<forall>dp \<in> set d. fst w \<le> timestamp dp \<and> timestamp dp < snd w)) ws ds"
    and "sorted_wrt (\<lambda>w w'. snd w \<le> fst w') ws"
  shows "sorted_wrt (<) (map timestamp (concat ds))"
  using assms
proof (induction rule: list_all2_induct)
  case Nil
  then show ?case by simp
next
  case (Cons w ws d ds)
  have tail: "sorted_wrt (<) (map timestamp (concat ds))" using Cons by simp
  have cross: "timestamp x < timestamp y" if "x \<in> set d" "y \<in> set (concat ds)" for x y
  proof -
    from that(2) obtain d' where d': "d' \<in> set ds" "y \<in> set d'" by auto
    from list_all2_member[OF Cons.hyps(2) d'(1)] obtain w' where
      w': "w' \<in> set ws" "\<forall>dp \<in> set d'. fst w' \<le> timestamp dp \<and> timestamp dp < snd w'"
      by blast
    have "snd w \<le> fst w'" using Cons.prems w'(1) by simp
    moreover have "timestamp x < snd w" using Cons.hyps(1) that(1) by simp
    moreover have "fst w' \<le> timestamp y" using w'(2) d'(2) by simp
    ultimately show ?thesis by linarith
  qed
  have "\<forall>x \<in> set d. \<forall>y \<in> set (concat ds). timestamp x < timestamp y"
    using cross by blast
  then show ?case
    using Cons.hyps(1) tail by (simp add: sorted_wrt_append)
qed

lemma args_chain:
  fixes sz :: int
  assumes "0 \<le> sz"
  shows "sorted_wrt (\<lambda>w w'. snd w \<le> fst w') (args (step_starts start n sz) sz)"
  unfolding sorted_wrt_iff_nth_less
proof (intro allI impI)
  fix i j
  assume ij: "i < j" and j: "j < length (args (step_starts start n sz) sz)"
  then have jn: "j < nat n" and inn: "i < nat n" by (simp_all add: args_length)
  have "int i + 1 \<le> int j" using ij by simp
  then have "(int i + 1) * sz \<le> int j * sz" using assms by (rule mult_right_mono)
  then have "start + int i * sz + sz \<le> start + int j * sz" by (simp add: distrib_right)
  then show "snd (args (step_starts start n sz) sz ! i) \<le> fst (args (step_starts start n sz) sz ! j)"
    by (simp add: args_nth[OF inn] args_nth[OF jn])
qed

text \<open>
  C3. A call of \<open>get_datapoints\<close> without a user-defined limit that splits the window
  into \<open>n \<ge> 1\<close> sub-windows: when the paginator of every sub-window returns datapoints
  with strictly ascending timestamps inside its own sub-window, the call returns the
  concatenation of the results of the paginators in the order of the sub-windows, which
  is the order of dispatch (\<open>pool_map\<close> keeps it), and the timestamps of the returned
  sequence are strictly ascending. Nothing is sorted.
\<close>

theorem concatenation_in_dispatch_order:
  fixes self :: "'v client"
  assumes nl: "kw_limit kwargs = None"
    and st: "steps (end - start) (worker_count self kwargs) (granularity_ms granularity) = Inr n"
    and ss: "step_size (end - start) n (granularity_ms granularity) = Inr sz"
    and n: "1 \<le> n"
    and H: "\<forall>(s, e) \<in> set (args (step_starts start n sz) sz).
              \<exists>sent d.
                get_datapoints_helper self name aggregates granularity s e
                  (case kw_protobuf kwargs of None \<Rightarrow> True | Some b \<Rightarrow> b)
                  (case kw_include_outside_points kwargs of None \<Rightarrow> False | Some b \<Rightarrow> b)
                  = Some (sent, Inr d)
              \<and> sorted_wrt (<) (map timestamp d)
              \<and> (\<forall>dp \<in> set d. s \<le> timestamp dp \<and> timestamp dp < e)"
  shows "\<exists>sents ds.
           get_datapoints self name start end aggregates granularity kwargs
             = Some (sents, Inr (concat ds))
         \<and> length sents = nat n \<and> length ds = nat n
         \<and> (\<forall>i < nat n.
               get_datapoints_helper self name aggregates granularity
                 (start + int i * sz) (start + int i * sz + sz)
                 (case kw_protobuf kwargs of None \<Rightarrow> True | Some b \<Rightarrow> b)
                 (case kw_include_outside_points kwargs of None \<Rightarrow> False | Some b \<Rightarrow> b)
                 = Some (sents ! i, Inr (ds ! i)))
         \<and> sorted_wrt (<) (map timestamp (concat ds))"
proof -
  define F where "F = (\<lambda>(s, e). get_datapoints_helper self name aggregates granularity s e
                 (case kw_protobuf kwargs of None \<Rightarrow> True | Some b \<Rightarrow> b)
                 (case kw_include_outside_points kwargs of None \<Rightarrow> False | Some b \<Rightarrow> b))"
  let ?F = F
  let ?args = "args (step_starts start n sz) sz"
  define rs where "rs = map (\<lambda>w. the (F w)) ?args"
  define ds where "ds = map (\<lambda>w. projr (snd (the (F w)))) ?args"
  let ?P = "\<lambda>w d. sorted_wrt (<) (map timestamp d)
                       \<and> (\<forall>dp \<in> set d. fst w \<le> timestamp dp \<and> timestamp dp < snd w)"
  have each: "F w = Some (fst (the (F w)), Inr (projr (snd (the (F w)))))
              \<and> ?P w (projr (snd (the (F w))))"
    if "w \<in> set ?args" for w
  proof -
    obtain s e where w: "w = (s, e)" by (cases w)
    from H that w obtain sent d where
      "F w = Some (sent, Inr d)" "sorted_wrt (<) (map timestamp d)"
      "\<forall>dp \<in> set d. s \<le> timestamp dp \<and> timestamp dp < e"
      unfolding F_def by fastforce
    then show ?thesis using w by simp
  qed
  have "F w = Some (the (F w))" if "w \<in> set ?args" for w
    using each[OF that] by (metis option.sel)
  then have "map F ?args = map Some rs"
    unfolding rs_def by simp
  then have pm0: "pool_map F ?args = Some rs" by (simp add: pool_map_Some)
  have "snd (the (F w)) = Inr (projr (snd (the (F w))))" if "w \<in> set ?args" for w
    using each[OF that] by (metis option.sel snd_conv)
  then have "map snd rs = map Inr ds"
    unfolding rs_def ds_def by simp
  then have co: "collect (map snd rs) = Inr ds" by (simp add: collect_map_Inr)
  note pm = pm0[unfolded F_def]
  have n0: "0 < n" using n by simp
  have gd: "get_datapoints self name start end aggregates granularity kwargs
             = Some (map fst rs, Inr (concat ds))"
    unfolding get_datapoints_no_limit[OF nl st ss n0] pm by (simp add: co)
  have l1: "length (map fst rs) = nat n" by (simp add: rs_def args_length)
  have l2: "length ds = nat n" by (simp add: ds_def args_length)
  have nth: "get_datapoints_helper self name aggregates granularity
                 (start + int i * sz) (start + int i * sz + sz)
                 (case kw_protobuf kwargs of None \<Rightarrow> True | Some b \<Rightarrow> b)
                 (case kw_include_outside_points kwargs of None \<Rightarrow> False | Some b \<Rightarrow> b)
                 = Some (map fst rs ! i, Inr (ds ! i))"
    if i: "i < nat n" for i
  proof -
    have m: "?args ! i \<in> set ?args" using i by (simp add: args_length)
    have "F (?args ! i) = Some (map fst rs ! i, Inr (ds ! i))"
      using each[OF m] i by (simp add: rs_def ds_def args_length)
    then show ?thesis by (simp add: args_nth[OF i] F_def)
  qed
  have la: "list_all2 ?P ?args ds"
    unfolding ds_def list_all2_map2 list_all2_same using each by blast
  have sorted: "sorted_wrt (<) (map timestamp (concat ds))"
  proof (cases "0 \<le> sz")
    case True
    from sorted_concat_windows[OF la args_chain[OF True]] show ?thesis .
  next
    case False
    have "d = []" if "d \<in> set ds" for d
    proof (rule ccontr)
      assume "d \<noteq> []"
      then obtain dp where dp: "dp \<in> set d" by (cases d) auto
      from list_all2_member[OF la that] obtain w where
        w: "w \<in> set ?args" "\<forall>dp \<in> set d. fst w \<le> timestamp dp \<and> timestamp dp < snd w"
        by blast
      then have "fst w < snd w" using dp by fastforce
      moreover have "snd w = fst w + sz" using w(1) by (auto simp: args_def)
      ultimately show False using False by simp
    qed
    then have "concat ds = []" by simp
    show ?thesis unfolding \<open>concat ds = []\<close> by simp
  qed
  show ?thesis
    apply (rule exI[of _ "map fst rs"])
    apply (rule exI[of _ ds])
    using gd l1 l2 nth sorted apply (intro conjI allI impI)
        apply assumption+
    done
qed

lemma point_server_helper_0_2:
  "get_datapoints_helper (point_server 1) [] None None 0 2 True False =
     Some ([\<lparr>p_aggregates = None, p_granularity = None, p_limit = 1,
              p_start = 0, p_end = 2, p_includeOutsidePoints = False\<rparr>,
            \<lparr>p_aggregates = None, p_granularity = None, p_limit = 1,
              p_start = 1, p_end = 2, p_includeOutsidePoints = False\<rparr>],
           Inr [Datapoint 0 (), Datapoint 1 ()])"
  by (simp add: get_datapoints_helper_def helper_loop.simps point_server_def granularity_ms_def)

lemma point_server_helper_2_4:
  "get_datapoints_helper (point_server 1) [] None None 2 4 True False =
     Some ([\<lparr>p_aggregates = None, p_granularity = None, p_limit = 1,
              p_start = 2, p_end = 4, p_includeOutsidePoints = False\<rparr>,
            \<lparr>p_aggregates = None, p_granularity = None, p_limit = 1,
              p_start = 3, p_end = 4, p_includeOutsidePoints = False\<rparr>],
           Inr [Datapoint 2 (), Datapoint 3 ()])"
  by (simp add: get_datapoints_helper_def helper_loop.simps point_server_def granularity_ms_def)

lemma two_workers_split:
  "kw_limit two_workers = None"
  "steps (4 - 0) (worker_count (point_server 1) two_workers) (granularity_ms None) = Inr 2"
  "step_size (4 - 0) 2 (granularity_ms None) = Inr 2"
  "args (step_starts 0 2 2) 2 = [(0, 2), (2, 4)]"
  "kw_protobuf two_workers = None" "kw_include_outside_points two_workers = None"
  by (simp_all add: steps_def step_size_def int_truediv_def round_to_nearest_def worker_count_def
      two_workers_def granularity_ms_def args_def step_starts_def upto.simps)

theorem concatenation_in_dispatch_order_witness:
  "kw_limit two_workers = None
   \<and> steps (4 - 0) (worker_count (point_server 1) two_workers) (granularity_ms None) = Inr 2
   \<and> step_size (4 - 0) 2 (granularity_ms None) = Inr 2 \<and> (1::int) \<le> 2
   \<and> get_datapoints_helper (point_server 1) [] None None 0 2 True False =
       Some ([\<lparr>p_aggregates = None, p_granularity = None, p_limit = 1,
                p_start = 0, p_end = 2, p_includeOutsidePoints = False\<rparr>,
              \<lparr>p_aggregates = None, p_granularity = None, p_limit = 1,
                p_start = 1, p_end = 2, p_includeOutsidePoints = False\<rparr>],
             Inr [Datapoint 0 (), Datapoint 1 ()])
   \<and> get_datapoints_helper (point_server 1) [] None None 2 4 True False =
       Some ([\<lparr>p_aggregates = None, p_granularity = None, p_limit = 1,
                p_start = 2, p_end = 4, p_includeOutsidePoints = False\<rparr>,
              \<lparr>p_aggregates = None, p_granularity = None, p_limit = 1,
                p_start = 3, p_end = 4, p_includeOutsidePoints = False\<rparr>],
             Inr [Datapoint 2 (), Datapoint 3 ()])
   \<and> (\<exists>sents. get_datapoints (point_server 1) [] 0 4 None None two_workers
         = Some (sents, Inr [Datapoint 0 (), Datapoint 1 (), Datapoint 2 (), Datapoint 3 ()]))
   \<and> sorted_wrt (<) (map timestamp
         [Datapoint 0 (), Datapoint 1 (), Datapoint 2 (), Datapoint (3::int) ()])"
proof -
  note s = two_workers_split
  have n: "(1::int) \<le> 2" by simp
  have H: "\<forall>(s, e) \<in> set (args (step_starts 0 2 2) 2).
              \<exists>sent d.
                get_datapoints_helper (point_server 1) [] None None s e
                  (case kw_protobuf two_workers of None \<Rightarrow> True | Some b \<Rightarrow> b)
                  (case kw_include_outside_points two_workers of None \<Rightarrow> False | Some b \<Rightarrow> b)
                  = Some (sent, Inr d)
              \<and> sorted_wrt (<) (map timestamp d)
              \<and> (\<forall>dp \<in> set d. s \<le> timestamp dp \<and> timestamp dp < e)"
    unfolding s by (simp add: point_server_helper_0_2 point_server_helper_2_4)
  from concatenation_in_dispatch_order[OF s(1) s(2) s(3) n H] obtain sents ds where
    gd: "get_datapoints (point_server 1) [] 0 4 None None two_workers = Some (sents, Inr (concat ds))"
    and len: "length ds = nat 2"
    and each: "\<forall>i < nat 2.
               get_datapoints_helper (point_server 1) [] None None
                 (0 + int i * 2) (0 + int i * 2 + 2)
                 (case kw_protobuf two_workers of None \<Rightarrow> True | Some b \<Rightarrow> b)
                 (case kw_include_outside_points two_workers of None \<Rightarrow> False | Some b \<Rightarrow> b)
                 = Some (sents ! i, Inr (ds ! i))"
    and sorted: "sorted_wrt (<) (map timestamp (concat ds))"
    by (elim exE conjE)
  have d0: "ds ! 0 = [Datapoint 0 (), Datapoint 1 ()]"
    using each[rule_format, of 0] by (simp add: s point_server_helper_0_2)
  have d1: "ds ! 1 = [Datapoint 2 (), Datapoint 3 ()]"
    using each[rule_format, of 1] by (simp add: s point_server_helper_2_4)
  have "ds = [ds ! 0, ds ! 1]"
    using len by (auto simp: nat_numeral length_Suc_conv numeral_2_eq_2)
  then have c: "concat ds = [Datapoint 0 (), Datapoint 1 (), Datapoint 2 (), Datapoint 3 ()]"
    using d0 d1 by (metis append.simps(1) append.simps(2) append_Nil2 concat.simps(1) concat.simps(2))
  show ?thesis
    using s(1) s(2) s(3) n point_server_helper_0_2 point_server_helper_2_4 gd[unfolded c]
      sorted[unfolded c]
    by (intro conjI exI[of _ sents])
qed

lemma helper_failure:
  assumes ret: "get_datapoints_helper self name aggregates granularity s e pb iop = Some (sent, r)"
    and bad: "\<exists>p \<in> set sent. \<exists>err. get self name (pb \<and> aggregates = None) p = Inl err"
  shows "\<exists>err. r = Inl err \<and> get self name (pb \<and> aggregates = None) (last sent) = Inl err"
proof -
  define params where "params = \<lparr>p_aggregates = aggregates, p_granularity = granularity,
      p_limit = (if aggregates = None then LIMIT self else LIMIT_AGG self),
      p_start = s, p_end = e, p_includeOutsidePoints = iop\<rparr>"
  from ret obtain r' where
    hl: "helper_loop self name (pb \<and> aggregates = None)
           (if aggregates = None then LIMIT self else LIMIT_AGG self) granularity params [] []
         = Some (sent, r')"
    and r: "r = (case r' of Inl e \<Rightarrow> Inl e | Inr (_, datapoints) \<Rightarrow> Inr (concat datapoints))"
    by (auto simp: get_datapoints_helper_def Let_def params_def split: option.splits)
  from helper_loop_trace[OF hl]
  have t: "trace_spec self name (pb \<and> aggregates = None) granularity params [] sent r'"
    by simp
  show ?thesis
  proof (cases r')
    case (Inl err)
    then have "get self name (pb \<and> aggregates = None) (last sent) = Inl err"
      using t by (simp add: trace_spec_def)
    then show ?thesis using r Inl by simp
  next
    case (Inr pd)
    obtain params' dps' where pd: "pd = (params', dps')" by (cases pd)
    from t Inr pd have
      b: "\<forall>p \<in> set (butlast sent). \<exists>res. get self name (pb \<and> aggregates = None) p = Inr res"
      and l: "sent \<noteq> [] \<longrightarrow> (\<exists>res. get self name (pb \<and> aggregates = None) (last sent) = Inr res)"
      by (simp_all add: trace_spec_def)
    from bad obtain p err where p: "p \<in> set sent"
      and e: "get self name (pb \<and> aggregates = None) p = Inl err"
      by blast
    then have ne: "sent \<noteq> []" by auto
    then have "sent = butlast sent @ [last sent]" by simp
    then have "p \<in> set (butlast sent) \<or> p = last sent"
      using p by (metis Un_iff empty_iff insert_iff list.set(1) list.set(2) set_append)
    then have "\<exists>res. get self name (pb \<and> aggregates = None) p = Inr res"
      using b l ne by blast
    then show ?thesis using e by simp
  qed
qed

lemma get_datapoints_split:
  assumes "kw_limit kwargs = None"
    and "get_datapoints self name start end aggregates granularity kwargs = Some (sents, r)"
    and "sents \<noteq> []"
  shows "\<exists>n sz. steps (end - start) (worker_count self kwargs) (granularity_ms granularity) = Inr n
           \<and> step_size (end - start) n (granularity_ms granularity) = Inr sz \<and> 0 < n"
proof (cases "steps (end - start) (worker_count self kwargs) (granularity_ms granularity)")
  case (Inl e)
  then show ?thesis using assms by (simp add: get_datapoints_def fetch_windows_def Let_def)
next
  case st: (Inr n)
  show ?thesis
  proof (cases "step_size (end - start) n (granularity_ms granularity)")
    case (Inl e)
    then show ?thesis using assms st by (simp add: get_datapoints_def fetch_windows_def Let_def)
  next
    case ss: (Inr sz)
    have "0 < n"
    proof (rule ccontr)
      assume "\<not> 0 < n"
      then show False using assms st ss by (simp add: get_datapoints_def fetch_windows_def Let_def)
    qed
    then show ?thesis using st ss by simp
  qed
qed

lemma coordinator_failure:
  assumes nl: "kw_limit kwargs = None"
    and ret: "get_datapoints self name start end aggregates granularity kwargs = Some (sents, r)"
    and bad: "\<exists>sent \<in> set sents. \<exists>p \<in> set sent. \<exists>err.
                get self name ((case kw_protobuf kwargs of None \<Rightarrow> True | Some b \<Rightarrow> b)
                               \<and> aggregates = None) p = Inl err"
  shows "\<exists>err. r = Inl err"
proof -
  from bad have "sents \<noteq> []" by auto
  from get_datapoints_split[OF nl ret this] obtain n sz where
    st: "steps (end - start) (worker_count self kwargs) (granularity_ms granularity) = Inr n"
    and ss: "step_size (end - start) n (granularity_ms granularity) = Inr sz" and n: "0 < n"
    by blast
  from get_datapoints_tasks[OF nl st ss n ret] obtain rs where
    len: "length rs = nat n" and s: "sents = map fst rs"
    and r: "r = (case collect (map snd rs) of Inl e \<Rightarrow> Inl e | Inr ds \<Rightarrow> Inr (concat ds))"
    and h: "\<forall>i < nat n.
                get_datapoints_helper self name aggregates granularity
                  (start + int i * sz) (start + int i * sz + sz)
                  (case kw_protobuf kwargs of None \<Rightarrow> True | Some b \<Rightarrow> b)
                  (case kw_include_outside_points kwargs of None \<Rightarrow> False | Some b \<Rightarrow> b)
                = Some (rs ! i)"
    by blast
  from bad obtain sent where "sent \<in> set sents"
    and b: "\<exists>p \<in> set sent. \<exists>err.
                get self name ((case kw_protobuf kwargs of None \<Rightarrow> True | Some b \<Rightarrow> b)
                               \<and> aggregates = None) p = Inl err"
    by blast
  then obtain i where i: "i < length rs" and si: "sent = fst (rs ! i)"
    using s by (auto simp: in_set_conv_nth)
  have "get_datapoints_helper self name aggregates granularity
                  (start + int i * sz) (start + int i * sz + sz)
                  (case kw_protobuf kwargs of None \<Rightarrow> True | Some b \<Rightarrow> b)
                  (case kw_include_outside_points kwargs of None \<Rightarrow> False | Some b \<Rightarrow> b)
                = Some (sent, snd (rs ! i))"
    using h i len si by simp
  from helper_failure[OF this b] obtain err where "snd (rs ! i) = Inl err" by blast
  then have "Inl err \<in> set (map snd rs)" using i by (metis length_map nth_map nth_mem)
  from collect_fails[OF this] show ?thesis using r by auto
qed

lemma coordinator_fails:
  assumes nl: "kw_limit kwargs = None"
    and st: "steps (end - start) (worker_count self kwargs) (granularity_ms granularity) = Inr n"
    and ss: "step_size (end - start) n (granularity_ms granularity) = Inr sz"
    and n: "1 \<le> n"
    and all: "\<forall>(s, e) \<in> set (args (step_starts start n sz) sz).
                get_datapoints_helper self name aggregates granularity s e
                  (case kw_protobuf kwargs of None \<Rightarrow> True | Some b \<Rightarrow> b)
                  (case kw_include_outside_points kwargs of None \<Rightarrow> False | Some b \<Rightarrow> b)
                \<noteq> None"
    and one: "\<exists>(s, e) \<in> set (args (step_starts start n sz) sz). \<exists>sent err.
                get_datapoints_helper self name aggregates granularity s e
                  (case kw_protobuf kwargs of None \<Rightarrow> True | Some b \<Rightarrow> b)
                  (case kw_include_outside_points kwargs of None \<Rightarrow> False | Some b \<Rightarrow> b)
                = Some (sent, Inl err)"
  shows "\<exists>sents err. get_datapoints self name start end aggregates granularity kwargs
                        = Some (sents, Inl err)"
proof -
  define F where "F = (\<lambda>(s, e). get_datapoints_helper self name aggregates granularity s e
                 (case kw_protobuf kwargs of None \<Rightarrow> True | Some b \<Rightarrow> b)
                 (case kw_include_outside_points kwargs of None \<Rightarrow> False | Some b \<Rightarrow> b))"
  let ?args = "args (step_starts start n sz) sz"
  have "\<forall>w \<in> set ?args. F w \<noteq> None" using all by (auto simp: F_def)
  then have "pool_map F ?args \<noteq> None" by (simp add: pool_map_None)
  then obtain rs where pm: "pool_map F ?args = Some rs" by blast
  then have m: "map F ?args = map Some rs" by (simp add: pool_map_Some)
  from one obtain w sent err where w: "w \<in> set ?args" and f: "F w = Some (sent, Inl err)"
    by (auto simp: F_def)
  have "F w \<in> set (map F ?args)" using w by simp
  then have "Some (sent, Inl err) \<in> set (map Some rs)" using m f by simp
  then have "(sent, Inl err) \<in> set rs" by auto
  then have "Inl err \<in> set (map snd rs)" by force
  from collect_fails[OF this] obtain err' where c: "collect (map snd rs) = Inl err'" by blast
  have n0: "0 < n" using n by simp
  have "get_datapoints self name start end aggregates granularity kwargs
          = Some (map fst rs, Inl err')"
    unfolding get_datapoints_no_limit[OF nl st ss n0] pm[unfolded F_def] by (simp add: c)
  then show ?thesis by blast
qed

text \<open>
  C7. A failing fetch fails the whole request. In a run of the paginator that returns, if
  a request it issued failed, the run returns that error, raised at its last request, and
  no datapoints. In a call of \<open>get_datapoints\<close> without a user-defined limit that returns,
  if a request of any of its paginators failed, the call returns an error and no
  datapoints, whatever the other paginators fetched. And when every paginator returns and
  one of them returns an error, the call does return, with an error.
\<close>

theorem fetch_failure_fails_request:
  "(\<forall>sent r.
       get_datapoints_helper self name aggregates granularity s e pb iop = Some (sent, r)
     \<and> (\<exists>p \<in> set sent. \<exists>err. get self name (pb \<and> aggregates = None) p = Inl err)
     \<longrightarrow> (\<exists>err. r = Inl err \<and> get self name (pb \<and> aggregates = None) (last sent) = Inl err))
   \<and> (\<forall>sents r.
         kw_limit kwargs = None
       \<and> get_datapoints self name start end aggregates granularity kwargs = Some (sents, r)
       \<and> (\<exists>sent \<in> set sents. \<exists>p \<in> set sent. \<exists>err.
             get self name ((case kw_protobuf kwargs of None \<Rightarrow> True | Some b \<Rightarrow> b)
                            \<and> aggregates = None) p = Inl err)
       \<longrightarrow> (\<exists>err. r = Inl err))
   \<and> (kw_limit kwargs = None
       \<and> steps (end - start) (worker_count self kwargs) (granularity_ms granularity) = Inr n
       \<and> step_size (end - start) n (granularity_ms granularity) = Inr sz
       \<and> 1 \<le> n
       \<and> (\<forall>(s, e) \<in> set (args (step_starts start n sz) sz).
             get_datapoints_helper self name aggregates granularity s e
               (case kw_protobuf kwargs of None \<Rightarrow> True | Some b \<Rightarrow> b)
               (case kw_include_outside_points kwargs of None \<Rightarrow> False | Some b \<Rightarrow> b)
             \<noteq> None)
       \<and> (\<exists>(s, e) \<in> set (args (step_starts start n sz) sz). \<exists>sent err.
             get_datapoints_helper self name aggregates granularity s e
               (case kw_protobuf kwargs of None \<Rightarrow> True | Some b \<Rightarrow> b)
               (case kw_include_outside_points kwargs of None \<Rightarrow> False | Some b \<Rightarrow> b)
             = Some (sent, Inl err))
       \<longrightarrow> (\<exists>sents err. get_datapoints self name start end aggregates granularity kwargs
                          = Some (sents, Inl err)))"
proof (intro conjI allI impI)
  fix sent r
  assume "get_datapoints_helper self name aggregates granularity s e pb iop = Some (sent, r)
     \<and> (\<exists>p \<in> set sent. \<exists>err. get self name (pb \<and> aggregates = None) p = Inl err)"
  then show "\<exists>err. r = Inl err \<and> get self name (pb \<and> aggregates = None) (last sent) = Inl err"
    using helper_failure by blast
next
  fix sents r
  assume a: "kw_limit kwargs = None
       \<and> get_datapoints self name start end aggregates granularity kwargs = Some (sents, r)
       \<and> (\<exists>sent \<in> set sents. \<exists>p \<in> set sent. \<exists>err.
             get self name ((case kw_protobuf kwargs of None \<Rightarrow> True | Some b \<Rightarrow> b)
                            \<and> aggregates = None) p = Inl err)"
  show "\<exists>err. r = Inl err"
    by (rule coordinator_failure[OF a[THEN conjunct1] a[THEN conjunct2, THEN conjunct1]
          a[THEN conjunct2, THEN conjunct2]])
next
  assume a: "kw_limit kwargs = None
       \<and> steps (end - start) (worker_count self kwargs) (granularity_ms granularity) = Inr n
       \<and> step_size (end - start) n (granularity_ms granularity) = Inr sz
       \<and> 1 \<le> n
       \<and> (\<forall>(s, e) \<in> set (args (step_starts start n sz) sz).
             get_datapoints_helper self name aggregates granularity s e
               (case kw_protobuf kwargs of None \<Rightarrow> True | Some b \<Rightarrow> b)
               (case kw_include_outside_points kwargs of None \<Rightarrow> False | Some b \<Rightarrow> b)
             \<noteq> None)
       \<and> (\<exists>(s, e) \<in> set (args (step_starts start n sz) sz). \<exists>sent err.
             get_datapoints_helper self name aggregates granularity s e
               (case kw_protobuf kwargs of None \<Rightarrow> True | Some b \<Rightarrow> b)
               (case kw_include_outside_points kwargs of None \<Rightarrow> False | Some b \<Rightarrow> b)
             = Some (sent, Inl err))"
  note c = conjunct1 conjunct2
  show "\<exists>sents err. get_datapoints self name start end aggregates granularity kwargs
                          = Some (sents, Inl err)"
    by (rule coordinator_fails[OF a[THEN c(1)] a[THEN c(2), THEN c(1)]
          a[THEN c(2), THEN c(2), THEN c(1)] a[THEN c(2), THEN c(2), THEN c(2), THEN c(1)]
          a[THEN c(2), THEN c(2), THEN c(2), THEN c(2), THEN c(1)]
          a[THEN c(2), THEN c(2), THEN c(2), THEN c(2), THEN c(2)]])
qed

lemma failing_server_helper_0_2:
  "get_datapoints_helper failing_server [] None None 0 2 True False =
     Some ([\<lparr>p_aggregates = None, p_granularity = None, p_limit = 1,
              p_start = 0, p_end = 2, p_includeOutsidePoints = False\<rparr>,
            \<lparr>p_aggregates = None, p_granularity = None, p_limit = 1,
              p_start = 1, p_end = 2, p_includeOutsidePoints = False\<rparr>],
           Inr [Datapoint 0 (), Datapoint 1 ()])"
  by (simp add: get_datapoints_helper_def helper_loop.simps failing_server_def granularity_ms_def)

lemma failing_server_helper_2_4:
  "get_datapoints_helper failing_server [] None None 2 4 True False =
     Some ([\<lparr>p_aggregates = None, p_granularity = None, p_limit = 1,
              p_start = 2, p_end = 4, p_includeOutsidePoints = False\<rparr>],
           Inl FetchFailed)"
  by (simp add: get_datapoints_helper_def helper_loop.simps failing_server_def granularity_ms_def)

lemma failing_server_split:
  "steps (4 - 0) (worker_count failing_server two_workers) (granularity_ms None) = Inr 2"
  by (simp add: steps_def int_truediv_def worker_count_def two_workers_def granularity_ms_def)

lemma failing_server_run:
  "get_datapoints failing_server [] 0 4 None None two_workers =
     Some ([[\<lparr>p_aggregates = None, p_granularity = None, p_limit = 1,
               p_start = 0, p_end = 2, p_includeOutsidePoints = False\<rparr>,
             \<lparr>p_aggregates = None, p_granularity = None, p_limit = 1,
               p_start = 1, p_end = 2, p_includeOutsidePoints = False\<rparr>],
            [\<lparr>p_aggregates = None, p_granularity = None, p_limit = 1,
               p_start = 2, p_end = 4, p_includeOutsidePoints = False\<rparr>]],
           Inl FetchFailed)"
proof -
  note s = two_workers_split
  have z: "(0::int) < 2" by simp
  have pm: "pool_map (\<lambda>(s, e). get_datapoints_helper failing_server [] None None s e True False)
              [(0, 2), (2, 4)] =
      Some [([\<lparr>p_aggregates = None, p_granularity = None, p_limit = 1,
               p_start = 0, p_end = 2, p_includeOutsidePoints = False\<rparr>,
             \<lparr>p_aggregates = None, p_granularity = None, p_limit = 1,
               p_start = 1, p_end = 2, p_includeOutsidePoints = False\<rparr>],
             Inr [Datapoint 0 (), Datapoint 1 ()]),
            ([\<lparr>p_aggregates = None, p_granularity = None, p_limit = 1,
               p_start = 2, p_end = 4, p_includeOutsidePoints = False\<rparr>], Inl FetchFailed)]"
    by (simp add: failing_server_helper_0_2 failing_server_helper_2_4)
  show ?thesis
    using get_datapoints_no_limit[OF s(1) failing_server_split s(3) z, of "[]" None,
        unfolded s(4) s(5) s(6) option.case pm]
    by simp
qed

theorem fetch_failure_fails_request_witness:
  "kw_limit two_workers = None
   \<and> get_datapoints_helper failing_server [] None None 0 2 True False =
       Some ([\<lparr>p_aggregates = None, p_granularity = None, p_limit = 1,
                p_start = 0, p_end = 2, p_includeOutsidePoints = False\<rparr>,
              \<lparr>p_aggregates = None, p_granularity = None, p_limit = 1,
                p_start = 1, p_end = 2, p_includeOutsidePoints = False\<rparr>],
             Inr [Datapoint 0 (), Datapoint 1 ()])
   \<and> get failing_server [] True
         \<lparr>p_aggregates = None, p_granularity = None, p_limit = 1,
           p_start = 2, p_end = 4, p_includeOutsidePoints = False\<rparr> = Inl FetchFailed
   \<and> get_datapoints failing_server [] 0 4 None None two_workers =
       Some ([[\<lparr>p_aggregates = None, p_granularity = None, p_limit = 1,
                 p_start = 0, p_end = 2, p_includeOutsidePoints = False\<rparr>,
               \<lparr>p_aggregates = None, p_granularity = None, p_limit = 1,
                 p_start = 1, p_end = 2, p_includeOutsidePoints = False\<rparr>],
              [\<lparr>p_aggregates = None, p_granularity = None, p_limit = 1,
                 p_start = 2, p_end = 4, p_includeOutsidePoints = False\<rparr>]],
             Inl FetchFailed)
   \<and> (\<exists>err. (Inl FetchFailed :: error + unit datapoint list) = Inl err)"
proof -
  let ?p = "\<lparr>p_aggregates = None, p_granularity = None, p_limit = 1,
           p_start = 2, p_end = 4, p_includeOutsidePoints = False\<rparr>"
  let ?S = "[[\<lparr>p_aggregates = None, p_granularity = None, p_limit = 1,
                 p_start = 0, p_end = 2, p_includeOutsidePoints = False\<rparr>,
               \<lparr>p_aggregates = None, p_granularity = None, p_limit = 1,
                 p_start = 1, p_end = 2, p_includeOutsidePoints = False\<rparr>],
              [?p]]"
  note s = two_workers_split
  have g: "get failing_server [] True ?p = Inl FetchFailed"
    by (simp add: failing_server_def)
  have bad: "\<exists>sent \<in> set ?S. \<exists>p \<in> set sent. \<exists>err.
             get failing_server [] ((case kw_protobuf two_workers of None \<Rightarrow> True | Some b \<Rightarrow> b)
                            \<and> (None :: string list option) = None) p = Inl err"
    unfolding s(5) using g by simp
  have hyp: "kw_limit two_workers = None
       \<and> get_datapoints failing_server [] 0 4 None None two_workers
           = Some (?S, Inl FetchFailed)
       \<and> (\<exists>sent \<in> set ?S. \<exists>p \<in> set sent. \<exists>err.
             get failing_server [] ((case kw_protobuf two_workers of None \<Rightarrow> True | Some b \<Rightarrow> b)
                            \<and> (None :: string list option) = None) p = Inl err)"
    using s(1) failing_server_run bad by (intro conjI)
  note t = fetch_failure_fails_request[THEN conjunct2, THEN conjunct1, rule_format, OF hyp]
  show ?thesis
    using s(1) failing_server_helper_0_2 g failing_server_run t by (intro conjI)
qed

section \<open>The lockstep pager\<close>

text \<open>
  C6. The counting loop (line 530) takes a query whose aggregates are the empty string
  for raw data; the budgeting loop (line 537) does not, and gives it the aggregate budget
  divided by the number of aggregate queries. With
  \<^verbatim>\<open>get_multi_time_series_datapoints([DatapointsQuery("a", aggregates=[])], 0, 10,
  aggregates=["avg"])\<close> the query is the only raw one, no query counts as aggregate, and
  the division raises \<^verbatim>\<open>ZeroDivisionError\<close> before any request is sent. Beside one
  aggregate query it receives \<open>LIMIT_AGG / 1\<close>, not \<open>LIMIT / 1\<close>.
\<close>

theorem empty_aggregates_budgeted_as_aggregate:
  "counted_raw (Some [''avg'']) raw_by_empty_string
   \<and> \<not> budgeted_raw (Some [''avg'']) raw_by_empty_string
   \<and> num_of_dpqs_raw (Some [''avg'']) [raw_by_empty_string] = 1
   \<and> num_of_dpqs_with_agg (Some [''avg'']) [raw_by_empty_string] = 0
   \<and> get_multi_time_series_datapoints self [raw_by_empty_string] 0 10 (Some [''avg'']) None False
       = Some ([], [raw_by_empty_string], Inl ZeroDivisionError)
   \<and> num_of_dpqs_raw (Some [''avg'']) [raw_by_empty_string, avg_query] = 1
   \<and> num_of_dpqs_with_agg (Some [''avg'']) [raw_by_empty_string, avg_query] = 1
   \<and> query_limit self (Some [''avg''])
         (num_of_dpqs_raw (Some [''avg'']) [raw_by_empty_string, avg_query])
         (num_of_dpqs_with_agg (Some [''avg'']) [raw_by_empty_string, avg_query])
         raw_by_empty_string
       = int_truediv (LIMIT_AGG self) 1"
proof -
  have c: "counted_raw (Some [''avg'']) raw_by_empty_string"
    "\<not> budgeted_raw (Some [''avg'']) raw_by_empty_string"
    "\<not> counted_raw (Some [''avg'']) avg_query"
    by (simp_all add: counted_raw_def budgeted_raw_def raw_by_empty_string_def avg_query_def)
  have n1: "num_of_dpqs_raw (Some [''avg'']) [raw_by_empty_string] = 1"
    "num_of_dpqs_with_agg (Some [''avg'']) [raw_by_empty_string] = 0"
    using c by (simp_all add: num_of_dpqs_raw_def num_of_dpqs_with_agg_def)
  have n2: "num_of_dpqs_raw (Some [''avg'']) [raw_by_empty_string, avg_query] = 1"
    "num_of_dpqs_with_agg (Some [''avg'']) [raw_by_empty_string, avg_query] = 1"
    using c by (simp_all add: num_of_dpqs_raw_def num_of_dpqs_with_agg_def)
  have q: "query_limit self (Some [''avg'']) 1 0 raw_by_empty_string = Inl ZeroDivisionError"
    using c by (simp add: query_limit_def int_truediv_def)
  have "set_limits self (Some [''avg'']) 1 0 0 [raw_by_empty_string]
          = ([raw_by_empty_string], Some ZeroDivisionError)"
    by (subst set_limits.simps) (simp add: q)
  then have g: "get_multi_time_series_datapoints self [raw_by_empty_string] 0 10
                  (Some [''avg'']) None False
                = Some ([], [raw_by_empty_string], Inl ZeroDivisionError)"
    by (simp add: get_multi_time_series_datapoints_def n1)
  have l: "query_limit self (Some [''avg''])
         (num_of_dpqs_raw (Some [''avg'']) [raw_by_empty_string, avg_query])
         (num_of_dpqs_with_agg (Some [''avg'']) [raw_by_empty_string, avg_query])
         raw_by_empty_string
       = int_truediv (LIMIT_AGG self) 1"
    unfolding n2 using c by (simp add: query_limit_def)
  show ?thesis using c(1) c(2) n1 g n2 l by (intro conjI)
qed

lemma update_queries_step:
  assumes "i < length qs" and "page_full (qs ! i) dpr \<longrightarrow> dpr \<noteq> []"
  shows "update_queries end g i (dpr # rest) qs inc =
           update_queries end g (Suc i) rest
             (qs[i := (qs ! i)\<lparr>dpq_start := Some (next_start end g (qs ! i) dpr)\<rparr>])
             (inc \<or> page_full (qs ! i) dpr)"
  using assms by (auto simp: page_full_def next_start_def Let_def)

lemma update_queries_spec:
  assumes "i + length res \<le> length qs"
    and "\<forall>j < length res. page_full (qs ! (i + j)) (res ! j) \<longrightarrow> res ! j \<noteq> []"
  shows "\<exists>qs'. update_queries end g i res qs inc
                 = (qs', Inr (inc \<or> (\<exists>j < length res. page_full (qs ! (i + j)) (res ! j))))
             \<and> length qs' = length qs
             \<and> (\<forall>k < length qs. k < i \<or> i + length res \<le> k \<longrightarrow> qs' ! k = qs ! k)
             \<and> (\<forall>j < length res.
                   qs' ! (i + j)
                     = (qs ! (i + j))\<lparr>dpq_start :=
                          Some (next_start end g (qs ! (i + j)) (res ! j))\<rparr>)"
  using assms
proof (induction res arbitrary: i qs inc)
  case Nil
  then show ?case by simp
next
  case (Cons dpr rest)
  define q' where "q' = (qs ! i)\<lparr>dpq_start := Some (next_start end g (qs ! i) dpr)\<rparr>"
  define qs1 where "qs1 = qs[i := q']"
  have i: "i < length qs" using Cons.prems(1) by simp
  have f0: "page_full (qs ! i) dpr \<longrightarrow> dpr \<noteq> []" using Cons.prems(2)[rule_format, of 0] by simp
  have step: "update_queries end g i (dpr # rest) qs inc
                = update_queries end g (Suc i) rest qs1 (inc \<or> page_full (qs ! i) dpr)"
    unfolding qs1_def q'_def by (rule update_queries_step[OF i f0])
  have same: "qs1 ! k = qs ! k" if "k \<noteq> i" for k
    using that by (simp add: qs1_def)
  have l1: "length qs1 = length qs" by (simp add: qs1_def)
  have a1: "Suc i + length rest \<le> length qs1" using Cons.prems(1) by (simp add: l1)
  have a2: "\<forall>j < length rest. page_full (qs1 ! (Suc i + j)) (rest ! j) \<longrightarrow> rest ! j \<noteq> []"
  proof (intro allI impI)
    fix j assume j: "j < length rest" and p: "page_full (qs1 ! (Suc i + j)) (rest ! j)"
    have "qs1 ! (Suc i + j) = qs ! (i + Suc j)" using same[of "Suc i + j"] by simp
    then show "rest ! j \<noteq> []" using Cons.prems(2)[rule_format, of "Suc j"] j p by simp
  qed
  from Cons.IH[OF a1 a2, of "inc \<or> page_full (qs ! i) dpr"] obtain qs' where
    r: "update_queries end g (Suc i) rest qs1 (inc \<or> page_full (qs ! i) dpr)
          = (qs', Inr ((inc \<or> page_full (qs ! i) dpr)
                        \<or> (\<exists>j < length rest. page_full (qs1 ! (Suc i + j)) (rest ! j))))"
    and len: "length qs' = length qs1"
    and out: "\<forall>k < length qs1. k < Suc i \<or> Suc i + length rest \<le> k \<longrightarrow> qs' ! k = qs1 ! k"
    and ins: "\<forall>j < length rest.
                   qs' ! (Suc i + j)
                     = (qs1 ! (Suc i + j))\<lparr>dpq_start :=
                          Some (next_start end g (qs1 ! (Suc i + j)) (rest ! j))\<rparr>"
    by blast
  have flag: "((inc \<or> page_full (qs ! i) dpr)
                 \<or> (\<exists>j < length rest. page_full (qs1 ! (Suc i + j)) (rest ! j)))
            = (inc \<or> (\<exists>j < length (dpr # rest). page_full (qs ! (i + j)) ((dpr # rest) ! j)))"
  proof -
    have "(\<exists>j < length (dpr # rest). page_full (qs ! (i + j)) ((dpr # rest) ! j))
            = (page_full (qs ! i) dpr
               \<or> (\<exists>j < length rest. page_full (qs ! (i + Suc j)) (rest ! j)))"
      by (auto simp: less_Suc_eq_0_disj)
    moreover have "qs1 ! (Suc i + j) = qs ! (i + Suc j)" for j
      using same[of "Suc i + j"] by simp
    ultimately show ?thesis by auto
  qed
  have c1: "update_queries end g i (dpr # rest) qs inc
                 = (qs', Inr (inc \<or> (\<exists>j < length (dpr # rest).
                                        page_full (qs ! (i + j)) ((dpr # rest) ! j))))"
    using step r flag by simp
  have c2: "length qs' = length qs" using len l1 by simp
  have c3: "\<forall>k < length qs. k < i \<or> i + length (dpr # rest) \<le> k \<longrightarrow> qs' ! k = qs ! k"
  proof (intro allI impI)
    fix k assume k: "k < length qs" and o: "k < i \<or> i + length (dpr # rest) \<le> k"
    then have "k \<noteq> i" by auto
    moreover have "qs' ! k = qs1 ! k" using out k o l1 by auto
    ultimately show "qs' ! k = qs ! k" using same by simp
  qed
  have c4: "\<forall>j < length (dpr # rest).
                   qs' ! (i + j)
                     = (qs ! (i + j))\<lparr>dpq_start :=
                          Some (next_start end g (qs ! (i + j)) ((dpr # rest) ! j))\<rparr>"
  proof (intro allI impI)
    fix j assume j: "j < length (dpr # rest)"
    show "qs' ! (i + j)
            = (qs ! (i + j))\<lparr>dpq_start :=
                 Some (next_start end g (qs ! (i + j)) ((dpr # rest) ! j))\<rparr>"
    proof (cases j)
      case 0
      have "qs' ! i = qs1 ! i" using out i l1 by simp
      also have "\<dots> = q'" using i by (simp add: qs1_def)
      finally show ?thesis using 0 by (simp add: q'_def)
    next
      case (Suc j')
      then have j': "j' < length rest" using j by simp
      have e: "qs1 ! (Suc i + j') = qs ! (i + Suc j')" using same[of "Suc i + j'"] by simp
      show ?thesis using ins[rule_format, OF j'] e Suc by simp
    qed
  qed
  show ?case using c1 c2 c3 c4 by blast
qed

text \<open>
  C5. One pass of the loop of lines 556-567 over the pages of a response, when every query
  has a page slot and no full page is empty (a full empty page raises IndexError at line
  560). The pass gives every query a new start. A query whose page is not full (in
  particular shorter than its limit) gets the start \<open>query.end - 1\<close> when it has an end of
  its own (a non-zero one: line 565 tests its truth value), with no minimum taken against
  the end of the call, and \<open>end - 1\<close> of the call otherwise. A query whose page is full gets
  the last timestamp of the page plus its own granularity in ms (the granularity of the call
  when it has none, 1 when neither is given). The flag \<open>has_incomplete_requests\<close> that
  continues the loop is set exactly when some page was full; queries and their other
  fields are left as they were.
\<close>

theorem lockstep_cursor_update:
  assumes "length res \<le> length qs"
    and "\<forall>j < length res. page_full (qs ! j) (res ! j) \<longrightarrow> res ! j \<noteq> []"
  shows "\<exists>qs'. update_queries end g 0 res qs False
                 = (qs', Inr (\<exists>j < length res. page_full (qs ! j) (res ! j)))
             \<and> length qs' = length qs
             \<and> (\<forall>k < length qs. length res \<le> k \<longrightarrow> qs' ! k = qs ! k)
             \<and> (\<forall>j < length res.
                   (\<not> page_full (qs ! j) (res ! j) \<longrightarrow>
                      qs' ! j = (qs ! j)\<lparr>dpq_start :=
                        Some (case dpq_end (qs ! j) of
                                None \<Rightarrow> end - 1
                              | Some e \<Rightarrow> if e \<noteq> 0 then e - 1 else end - 1)\<rparr>)
                 \<and> (page_full (qs ! j) (res ! j) \<longrightarrow>
                      qs' ! j = (qs ! j)\<lparr>dpq_start :=
                        Some (timestamp (last (res ! j))
                              + granularity_ms (case dpq_granularity (qs ! j) of
                                                  None \<Rightarrow> g
                                                | Some x \<Rightarrow> Some x))\<rparr>))"
proof -
  have a1: "0 + length res \<le> length qs" using assms(1) by simp
  have a2: "\<forall>j < length res. page_full (qs ! (0 + j)) (res ! j) \<longrightarrow> res ! j \<noteq> []"
    using assms(2) by simp
  from update_queries_spec[OF a1 a2, of "end" g False] obtain qs' where
    r: "update_queries end g 0 res qs False
          = (qs', Inr (\<exists>j < length res. page_full (qs ! j) (res ! j)))"
    and len: "length qs' = length qs"
    and out: "\<forall>k < length qs. length res \<le> k \<longrightarrow> qs' ! k = qs ! k"
    and ins: "\<forall>j < length res.
                qs' ! j = (qs ! j)\<lparr>dpq_start := Some (next_start end g (qs ! j) (res ! j))\<rparr>"
    by auto
  have "(\<not> page_full (qs ! j) (res ! j) \<longrightarrow>
            qs' ! j = (qs ! j)\<lparr>dpq_start :=
              Some (case dpq_end (qs ! j) of
                      None \<Rightarrow> end - 1
                    | Some e \<Rightarrow> if e \<noteq> 0 then e - 1 else end - 1)\<rparr>)
       \<and> (page_full (qs ! j) (res ! j) \<longrightarrow>
            qs' ! j = (qs ! j)\<lparr>dpq_start :=
              Some (timestamp (last (res ! j))
                    + granularity_ms (case dpq_granularity (qs ! j) of
                                        None \<Rightarrow> g
                                      | Some x \<Rightarrow> Some x))\<rparr>)"
    if "j < length res" for j
    using ins[rule_format, OF that] by (simp add: next_start_def)
  then show ?thesis using r len out by blast
qed

theorem lockstep_cursor_update_witness:
  "length [empty_page] \<le> length [own_end_query]
   \<and> \<not> page_full own_end_query empty_page
   \<and> update_queries 100 None 0 [empty_page] [own_end_query] False
       = ([own_end_query\<lparr>dpq_start := Some 199\<rparr>], Inr False)"
proof -
  have h1: "length [empty_page] \<le> length [own_end_query]" by simp
  have nf: "\<not> page_full own_end_query empty_page"
    by (simp add: page_full_def own_end_query_def empty_page_def)
  have h2: "\<forall>j < length [empty_page].
              page_full ([own_end_query] ! j) ([empty_page] ! j) \<longrightarrow> [empty_page] ! j \<noteq> []"
    using nf by simp
  from lockstep_cursor_update[OF h1 h2, of 100 None] obtain qs' where
    r: "update_queries 100 None 0 [empty_page] [own_end_query] False
          = (qs', Inr (\<exists>j < length [empty_page].
                          page_full ([own_end_query] ! j) ([empty_page] ! j)))"
    and len: "length qs' = length [own_end_query]"
    and ins: "\<forall>j < length [empty_page].
                   (\<not> page_full ([own_end_query] ! j) ([empty_page] ! j) \<longrightarrow>
                      qs' ! j = ([own_end_query] ! j)\<lparr>dpq_start :=
                        Some (case dpq_end ([own_end_query] ! j) of
                                None \<Rightarrow> 100 - 1
                              | Some e \<Rightarrow> if e \<noteq> 0 then e - 1 else 100 - 1)\<rparr>)"
    by (elim exE conjE) blast
  have q0: "qs' ! 0 = own_end_query\<lparr>dpq_start := Some 199\<rparr>"
    using ins[rule_format, of 0] nf by (simp add: own_end_query_def)
  have "qs' = [own_end_query\<lparr>dpq_start := Some 199\<rparr>]"
    using len q0 by (cases qs') simp_all
  moreover have "(\<exists>j < length [empty_page].
                     page_full ([own_end_query] ! j) ([empty_page] ! j)) = False"
    using nf by simp
  ultimately show ?thesis using r h1 nf by simp
qed

text \<open>
  The call has the end 100 and the query its own end 200; the page of the query is empty,
  shorter than its limit 5. The query declared its own end, and its start becomes
  \<open>200 - 1\<close>, not \<open>min 100 200 - 1\<close>.
\<close>

theorem own_end_beyond_shared_end_counterexample:
  "dpq_end own_end_query = Some 200
   \<and> dpq_limit own_end_query = Some 5
   \<and> int (length empty_page) < 5
   \<and> update_queries 100 None 0 [empty_page] [own_end_query] False
       = ([own_end_query\<lparr>dpq_start := Some 199\<rparr>], Inr False)
   \<and> dpq_start (own_end_query\<lparr>dpq_start := Some 199\<rparr>) \<noteq> Some (min 100 200 - 1)"
  by (simp add: own_end_query_def empty_page_def)

lemma update_queries_length:
  "length (fst (update_queries end g i res qs inc)) = length qs"
  by (induction res arbitrary: i qs inc) (simp_all add: Let_def)

lemma update_queries_Inr_D:
  assumes "update_queries end g i res qs inc = (qs', Inr inc')" and "i \<le> length qs"
  shows "i + length res \<le> length qs
       \<and> (\<forall>j < length res. page_full (qs ! (i + j)) (res ! j) \<longrightarrow> res ! j \<noteq> [])"
  using assms
proof (induction res arbitrary: i qs inc)
  case Nil
  then show ?case by simp
next
  case (Cons dpr rest)
  have i: "i < length qs"
    using Cons.prems by (cases "length qs \<le> i") simp_all
  have f0: "page_full (qs ! i) dpr \<longrightarrow> dpr \<noteq> []"
    using Cons.prems i by (auto simp: page_full_def Let_def)
  define qs1 where
    "qs1 = qs[i := (qs ! i)\<lparr>dpq_start := Some (next_start end g (qs ! i) dpr)\<rparr>]"
  have "update_queries end g (Suc i) rest qs1 (inc \<or> page_full (qs ! i) dpr) = (qs', Inr inc')"
    using Cons.prems(1) unfolding update_queries_step[OF i f0] qs1_def .
  moreover have "Suc i \<le> length qs1" using i by (simp add: qs1_def)
  ultimately have
    a: "Suc i + length rest \<le> length qs1"
    and b: "\<forall>j < length rest. page_full (qs1 ! (Suc i + j)) (rest ! j) \<longrightarrow> rest ! j \<noteq> []"
    using Cons.IH by blast+
  have same: "qs1 ! (Suc i + j) = qs ! (i + Suc j)" for j
    by (simp add: qs1_def)
  have "\<forall>j < length (dpr # rest).
          page_full (qs ! (i + j)) ((dpr # rest) ! j) \<longrightarrow> (dpr # rest) ! j \<noteq> []"
  proof (intro allI impI)
    fix j assume j: "j < length (dpr # rest)"
      and p: "page_full (qs ! (i + j)) ((dpr # rest) ! j)"
    show "(dpr # rest) ! j \<noteq> []"
    proof (cases j)
      case 0
      then show ?thesis using f0 p by simp
    next
      case (Suc j')
      then show ?thesis using b[rule_format, of j'] j p same[of j'] by simp
    qed
  qed
  moreover have "i + length (dpr # rest) \<le> length qs" using a by (simp add: qs1_def)
  ultimately show ?case by blast
qed

lemma lockstep_trace_post_error: "lockstep_trace self end g qs [make_body qs a g' s e' iop] qs (Inl e)"
  by (simp add: lockstep_trace_def make_body_def)

lemma lockstep_trace_update_error:
  assumes "update_queries end g 0 res qs False = (qs', Inl e)"
  shows "lockstep_trace self end g qs [make_body qs a g' s e' iop] qs' (Inl e)"
  using update_queries_length[of "end" g 0 res qs False] assms
  by (simp add: lockstep_trace_def make_body_def)

lemma lockstep_trace_finish:
  assumes "post self (make_body qs a g' s e' iop) = Inr res"
    and "update_queries end g 0 res qs False = (qs', Inr False)"
  shows "lockstep_trace self end g qs [make_body qs a g' s e' iop] qs' (Inr rs)"
proof -
  have "b_items (make_body qs a g' s e' iop) = qs" by (simp add: make_body_def)
  then show ?thesis
    using update_queries_length[of "end" g 0 res qs False] assms
    by (simp add: lockstep_trace_def)
qed

lemma lockstep_trace_step:
  assumes p: "post self (make_body qs a g' s e' iop) = Inr res"
    and u: "update_queries end g 0 res qs False = (qs1, Inr True)"
    and t: "lockstep_trace self end g qs1 new qs' r"
  shows "lockstep_trace self end g qs (make_body qs a g' s e' iop # new) qs' r"
proof -
  define b where "b = make_body qs a g' s e' iop"
  have bi: "b_items b = qs" by (simp add: b_def make_body_def)
  note t' = t[unfolded lockstep_trace_def]
  have ne: "new \<noteq> []" and h: "b_items (new ! 0) = qs1" and l: "length qs' = length qs1"
    using t' by simp_all
  have l1: "length qs1 = length qs"
    using update_queries_length[of "end" g 0 res qs False] u by simp
  have st: "\<exists>res. post self ((b # new) ! k) = Inr res
               \<and> update_queries end g 0 res (b_items ((b # new) ! k)) False
                   = (b_items ((b # new) ! Suc k), Inr True)"
    if "Suc k < length (b # new)" for k
  proof (cases k)
    case 0
    then show ?thesis using p u h bi by (simp add: b_def)
  next
    case (Suc k')
    then have "Suc k' < length new" using that by simp
    then show ?thesis using t' Suc by simp
  qed
  have la: "last (b # new) = last new" using ne by simp
  have "case r of
         Inl e \<Rightarrow> True
       | Inr rs \<Rightarrow>
           (\<exists>res. post self (last (b # new)) = Inr res
              \<and> update_queries end g 0 res (b_items (last (b # new))) False = (qs', Inr False))"
    unfolding la using t' by simp
  then show ?thesis
    unfolding lockstep_trace_def b_def[symmetric]
    using bi l l1 st by simp
qed

lemma multi_loop_trace:
  assumes "multi_loop self aggregates g start end iop qs dr sent = Some y"
  shows "\<exists>new. fst y = sent @ new \<and> lockstep_trace self end g qs new (fst (snd y)) (snd (snd y))"
proof (rule multi_loop.raw_induct[where P = "\<lambda>self aggregates g start end iop qs dr sent y.
          \<exists>new. fst y = sent @ new
              \<and> lockstep_trace self end g qs new (fst (snd y)) (snd (snd y))",
        OF _ assms])
  fix multi_loop' :: "'a client \<Rightarrow> string list option \<Rightarrow> int option \<Rightarrow> int \<Rightarrow> int \<Rightarrow> bool \<Rightarrow>
     dpq list \<Rightarrow> 'a datapoint list list list \<Rightarrow> body list \<Rightarrow>
     (body list \<times> dpq list \<times> (error + 'a datapoint list list list)) option"
  fix self aggregates g start "end" iop qs dr sent y
  assume IH: "\<And>self aggregates g start end iop qs dr sent y.
        multi_loop' self aggregates g start end iop qs dr sent = Some y \<Longrightarrow>
        \<exists>new. fst y = sent @ new
            \<and> lockstep_trace self end g qs new (fst (snd y)) (snd (snd y))"
  define b where "b = make_body qs aggregates g start end iop"
  assume body0: "(let b = make_body qs aggregates g start end iop in
      case post self b of
        Inl e \<Rightarrow> Some (sent @ [b], qs, Inl e)
      | Inr res \<Rightarrow>
          (case update_queries end g 0 res qs False of
             (qs', Inl e) \<Rightarrow> Some (sent @ [b], qs', Inl e)
           | (qs', Inr inc) \<Rightarrow>
               if inc then
                 multi_loop' self aggregates g start end iop qs' (dr @ [res]) (sent @ [b])
               else Some (sent @ [b], qs', Inr (dr @ [res])))) = Some y"
  note body = body0[unfolded Let_def, folded b_def]
  show "\<exists>new. fst y = sent @ new
            \<and> lockstep_trace self end g qs new (fst (snd y)) (snd (snd y))"
  proof (cases "post self b")
    case (Inl e)
    then have "y = (sent @ [b], qs, Inl e)" using body by simp
    then show ?thesis using lockstep_trace_post_error[of self "end" g qs aggregates g start "end" iop e]
      by (simp add: b_def)
  next
    case (Inr res)
    obtain qs1 u where u: "update_queries end g 0 res qs False = (qs1, u)"
      by (cases "update_queries end g 0 res qs False")
    show ?thesis
    proof (cases u)
      case (Inl e)
      then have "y = (sent @ [b], qs1, Inl e)" using body Inr u by simp
      then show ?thesis
        using lockstep_trace_update_error[OF u[unfolded Inl], of self aggregates g start "end" iop]
        by (simp add: b_def)
    next
      case inc: (Inr inc)
      show ?thesis
      proof (cases inc)
        case False
        then have "y = (sent @ [b], qs1, Inr (dr @ [res]))" using body Inr u inc by simp
        moreover have "update_queries end g 0 res qs False = (qs1, Inr False)"
          using u inc False by simp
        ultimately show ?thesis
          using lockstep_trace_finish[OF Inr[unfolded b_def]]
          by (simp add: b_def)
      next
        case True
        then have "multi_loop' self aggregates g start end iop qs1 (dr @ [res]) (sent @ [b])
                     = Some y"
          using body Inr u inc by simp
        from IH[OF this] obtain new where
          n: "fst y = (sent @ [b]) @ new"
          and t: "lockstep_trace self end g qs1 new (fst (snd y)) (snd (snd y))"
          by blast
        have u': "update_queries end g 0 res qs False = (qs1, Inr True)"
          using u inc True by simp
        have "fst y = sent @ (b # new)" using n by simp
        then show ?thesis
          using lockstep_trace_step[OF Inr[unfolded b_def] u' t]
          by (auto simp: b_def)
      qed
    qed
  qed
qed

lemma set_limits_spec:
  assumes "set_limits self aggregates n_raw n_agg i qs = (qs', eo)"
  shows "length qs' = length qs
       \<and> (\<forall>k < i. qs' ! k = qs ! k)
       \<and> (eo = None \<longrightarrow>
            (\<forall>k < length qs. i \<le> k \<longrightarrow>
               (\<exists>l. query_limit self aggregates n_raw n_agg (qs ! k) = Inr l
                  \<and> qs' ! k = (qs ! k)\<lparr>dpq_limit := Some l\<rparr>)))"
  using assms
proof (induction self aggregates n_raw n_agg i qs rule: set_limits.induct)
  case (1 self aggregates n_raw n_agg i qs)
  show ?case
  proof (cases "i < length qs")
    case False
    then have "qs' = qs" using "1.prems" by (subst (asm) set_limits.simps) simp
    then show ?thesis using False by simp
  next
    case True
    show ?thesis
    proof (cases "query_limit self aggregates n_raw n_agg (qs ! i)")
      case (Inl e)
      then have "qs' = qs \<and> eo = Some e"
        using "1.prems" True by (subst (asm) set_limits.simps) simp
      then show ?thesis by simp
    next
      case (Inr l)
      define qs1 where "qs1 = qs[i := (qs ! i)\<lparr>dpq_limit := Some l\<rparr>]"
      have "set_limits self aggregates n_raw n_agg (Suc i) qs1 = (qs', eo)"
        using "1.prems" True Inr unfolding qs1_def by (subst (asm) set_limits.simps) simp
      from "1.IH"[OF True Inr this[unfolded qs1_def], folded qs1_def] have
        a: "length qs' = length qs1"
        and b: "\<forall>k < Suc i. qs' ! k = qs1 ! k"
        and c: "eo = None \<longrightarrow>
            (\<forall>k < length qs1. Suc i \<le> k \<longrightarrow>
               (\<exists>l. query_limit self aggregates n_raw n_agg (qs1 ! k) = Inr l
                  \<and> qs' ! k = (qs1 ! k)\<lparr>dpq_limit := Some l\<rparr>))"
        by simp_all
      have l1: "length qs1 = length qs" by (simp add: qs1_def)
      have same: "qs1 ! k = qs ! k" if "k \<noteq> i" for k using that by (simp add: qs1_def)
      have at: "qs1 ! i = (qs ! i)\<lparr>dpq_limit := Some l\<rparr>" using True by (simp add: qs1_def)
      have c1: "length qs' = length qs" using a l1 by simp
      have c2: "\<forall>k < i. qs' ! k = qs ! k" using b same by simp
      have c3: "\<exists>l. query_limit self aggregates n_raw n_agg (qs ! k) = Inr l
                  \<and> qs' ! k = (qs ! k)\<lparr>dpq_limit := Some l\<rparr>"
        if n: "eo = None" and k: "k < length qs" and ik: "i \<le> k" for k
      proof (cases "k = i")
        case True
        have "qs' ! i = qs1 ! i" using b by simp
        then show ?thesis using True Inr at by simp
      next
        case False
        then have "Suc i \<le> k" using ik by simp
        then have "\<exists>l. query_limit self aggregates n_raw n_agg (qs1 ! k) = Inr l
                  \<and> qs' ! k = (qs1 ! k)\<lparr>dpq_limit := Some l\<rparr>"
          using c n k l1 by simp
        then show ?thesis unfolding same[OF False] .
      qed
      show ?thesis using c1 c2 c3 by blast
    qed
  qed
qed

lemma update_queries_result:
  assumes u: "update_queries end g 0 res qs False = (qs', Inr inc)"
  shows "length res \<le> length qs
       \<and> inc = (\<exists>j < length res. page_full (qs ! j) (res ! j))
       \<and> (\<forall>j < length res.
            qs' ! j = (qs ! j)\<lparr>dpq_start := Some (next_start end g (qs ! j) (res ! j))\<rparr>)
       \<and> (\<forall>k < length qs. length res \<le> k \<longrightarrow> qs' ! k = qs ! k)"
proof -
  from update_queries_Inr_D[OF u] have
    a1: "0 + length res \<le> length qs"
    and a2: "\<forall>j < length res. page_full (qs ! (0 + j)) (res ! j) \<longrightarrow> res ! j \<noteq> []"
    by simp_all
  from update_queries_spec[OF a1 a2, of "end" g False] obtain qs'' where
    r: "update_queries end g 0 res qs False
          = (qs'', Inr (\<exists>j < length res. page_full (qs ! j) (res ! j)))"
    and out: "\<forall>k < length qs. length res \<le> k \<longrightarrow> qs'' ! k = qs ! k"
    and ins: "\<forall>j < length res.
                qs'' ! j = (qs ! j)\<lparr>dpq_start := Some (next_start end g (qs ! j) (res ! j))\<rparr>"
    by auto
  have "qs'' = qs'" and "inc = (\<exists>j < length res. page_full (qs ! j) (res ! j))"
    using r u by simp_all
  then show ?thesis using a1 out ins by simp
qed

lemma lockstep_trace_lengths:
  assumes t: "lockstep_trace self end g qs new qs' r" and k: "k < length new"
  shows "length (b_items (new ! k)) = length qs"
  using k
proof (induction k)
  case 0
  then show ?case using t by (simp add: lockstep_trace_def)
next
  case (Suc k)
  have "\<forall>k. Suc k < length new \<longrightarrow>
         (\<exists>res. post self (new ! k) = Inr res
            \<and> update_queries end g 0 res (b_items (new ! k)) False
                = (b_items (new ! Suc k), Inr True))"
    using t by (simp add: lockstep_trace_def)
  with Suc.prems obtain res where
    "post self (new ! k) = Inr res"
    and "update_queries end g 0 res (b_items (new ! k)) False = (b_items (new ! Suc k), Inr True)"
    by blast
  then have "length (b_items (new ! Suc k)) = length (b_items (new ! k))"
    using update_queries_length[of "end" g 0 res "b_items (new ! k)" False] by simp
  then show ?case using Suc by simp
qed

lemma multi_loop_continue:
  assumes "post self (make_body qs aggregates g start end iop) = Inr res"
    and "update_queries end g 0 res qs False = (qs', Inr True)"
  shows "multi_loop self aggregates g start end iop qs dr sent
           = multi_loop self aggregates g start end iop qs' (dr @ [res])
               (sent @ [make_body qs aggregates g start end iop])"
  by (subst multi_loop.simps) (simp add: assms)

lemma multi_loop_finish:
  assumes "post self (make_body qs aggregates g start end iop) = Inr res"
    and "update_queries end g 0 res qs False = (qs', Inr False)"
  shows "multi_loop self aggregates g start end iop qs dr sent
           = Some (sent @ [make_body qs aggregates g start end iop], qs', Inr (dr @ [res]))"
  by (subst multi_loop.simps) (simp add: assms)

text \<open>
  C10. In every call of \<^verbatim>\<open>get_multi_time_series_datapoints\<close> that returns, with \<open>sent\<close>
  the requests it made and \<open>qs'\<close> the query objects as the call leaves them: no query is
  added or dropped, and every request carries all of them. The first request carries
  every query with its limit overwritten by the budget of lines 537-540. Every request
  after the first carries every query of the response before it, full page or not, with
  the start the pass over that response wrote; for a query whose page was not full,
  which needs no more data, that is the terminal start (its own end, or the end of the
  call, minus 1). After a call that ends without an error the query objects hold the
  starts written after the last response.
\<close>

theorem queries_mutated_and_resent:
  assumes run: "get_multi_time_series_datapoints self qs0 start end aggregates g iop
                  = Some (sent, qs', r)"
  shows "length qs' = length qs0
       \<and> (\<forall>k < length sent. length (b_items (sent ! k)) = length qs0)
       \<and> (sent \<noteq> [] \<longrightarrow>
            (\<forall>i < length qs0.
               \<exists>l. query_limit self aggregates (num_of_dpqs_raw aggregates qs0)
                      (num_of_dpqs_with_agg aggregates qs0) (qs0 ! i) = Inr l
                 \<and> b_items (sent ! 0) ! i = (qs0 ! i)\<lparr>dpq_limit := Some l\<rparr>))
       \<and> (\<forall>k. Suc k < length sent \<longrightarrow>
            (\<exists>res. post self (sent ! k) = Inr res \<and> length res \<le> length qs0
               \<and> (\<forall>j < length res.
                     b_items (sent ! Suc k) ! j
                       = (b_items (sent ! k) ! j)\<lparr>dpq_start :=
                            Some (next_start end g (b_items (sent ! k) ! j) (res ! j))\<rparr>
                   \<and> (\<not> page_full (b_items (sent ! k) ! j) (res ! j) \<longrightarrow>
                        dpq_start (b_items (sent ! Suc k) ! j)
                          = Some (case dpq_end (b_items (sent ! k) ! j) of
                                    None \<Rightarrow> end - 1
                                  | Some e \<Rightarrow> if e \<noteq> 0 then e - 1 else end - 1)))))
       \<and> (\<forall>rs. r = Inr rs \<longrightarrow>
            (\<exists>res. sent \<noteq> [] \<and> post self (last sent) = Inr res \<and> length res \<le> length qs0
               \<and> (\<forall>j < length res.
                     qs' ! j
                       = (b_items (last sent) ! j)\<lparr>dpq_start :=
                            Some (next_start end g (b_items (last sent) ! j) (res ! j))\<rparr>)))"
proof -
  define n_raw where "n_raw = num_of_dpqs_raw aggregates qs0"
  define n_agg where "n_agg = num_of_dpqs_with_agg aggregates qs0"
  obtain qs1 eo where sl: "set_limits self aggregates n_raw n_agg 0 qs0 = (qs1, eo)"
    by (cases "set_limits self aggregates n_raw n_agg 0 qs0")
  note sp = set_limits_spec[OF sl]
  have l1: "length qs1 = length qs0" using sp by simp
  note run' = run[unfolded get_multi_time_series_datapoints_def Let_def,
      folded n_raw_def n_agg_def, unfolded sl]
  show ?thesis
  proof (cases eo)
    case (Some e)
    then have "sent = []" and "qs' = qs1" using run' by simp_all
    moreover have "r = Inl e" using run' Some by simp
    ultimately show ?thesis using l1 by simp
  next
    case None
    then have lim: "\<forall>i < length qs0.
               \<exists>l. query_limit self aggregates n_raw n_agg (qs0 ! i) = Inr l
                 \<and> qs1 ! i = (qs0 ! i)\<lparr>dpq_limit := Some l\<rparr>"
      using sp by simp
    obtain r' where
      ml: "multi_loop self aggregates g start end iop qs1 [] [] = Some (sent, qs', r')"
      and rr: "\<forall>rs. r = Inr rs \<longrightarrow> (\<exists>rs'. r' = Inr rs')"
      using run' None
      by (auto split: option.splits sum.splits prod.splits)
    from multi_loop_trace[OF ml] have t: "lockstep_trace self end g qs1 sent qs' r'" by simp
    note t' = t[unfolded lockstep_trace_def]
    have ne: "sent \<noteq> []" and h: "b_items (sent ! 0) = qs1" and lq: "length qs' = length qs1"
      using t' by simp_all
    have c1: "length qs' = length qs0" using lq l1 by simp
    have c2: "\<forall>k < length sent. length (b_items (sent ! k)) = length qs0"
      using lockstep_trace_lengths[OF t] l1 by simp
    have c3: "sent \<noteq> [] \<longrightarrow>
            (\<forall>i < length qs0.
               \<exists>l. query_limit self aggregates (num_of_dpqs_raw aggregates qs0)
                      (num_of_dpqs_with_agg aggregates qs0) (qs0 ! i) = Inr l
                 \<and> b_items (sent ! 0) ! i = (qs0 ! i)\<lparr>dpq_limit := Some l\<rparr>)"
      using lim unfolding h n_raw_def n_agg_def by simp
    have c4: "\<exists>res. post self (sent ! k) = Inr res \<and> length res \<le> length qs0
               \<and> (\<forall>j < length res.
                     b_items (sent ! Suc k) ! j
                       = (b_items (sent ! k) ! j)\<lparr>dpq_start :=
                            Some (next_start end g (b_items (sent ! k) ! j) (res ! j))\<rparr>
                   \<and> (\<not> page_full (b_items (sent ! k) ! j) (res ! j) \<longrightarrow>
                        dpq_start (b_items (sent ! Suc k) ! j)
                          = Some (case dpq_end (b_items (sent ! k) ! j) of
                                    None \<Rightarrow> end - 1
                                  | Some e \<Rightarrow> if e \<noteq> 0 then e - 1 else end - 1)))"
      if k: "Suc k < length sent" for k
    proof -
      have "\<forall>k. Suc k < length sent \<longrightarrow>
         (\<exists>res. post self (sent ! k) = Inr res
            \<and> update_queries end g 0 res (b_items (sent ! k)) False
                = (b_items (sent ! Suc k), Inr True))"
        using t' by simp
      with k obtain res where
        p: "post self (sent ! k) = Inr res"
        and u: "update_queries end g 0 res (b_items (sent ! k)) False
                  = (b_items (sent ! Suc k), Inr True)"
        by blast
      note ur = update_queries_result[OF u]
      have lk: "length (b_items (sent ! k)) = length qs0" using c2 k by simp
      have a: "length res \<le> length qs0" using ur lk by simp
      have b: "\<forall>j < length res.
                     b_items (sent ! Suc k) ! j
                       = (b_items (sent ! k) ! j)\<lparr>dpq_start :=
                            Some (next_start end g (b_items (sent ! k) ! j) (res ! j))\<rparr>"
        using ur by simp
      have "b_items (sent ! Suc k) ! j
                       = (b_items (sent ! k) ! j)\<lparr>dpq_start :=
                            Some (next_start end g (b_items (sent ! k) ! j) (res ! j))\<rparr>
                   \<and> (\<not> page_full (b_items (sent ! k) ! j) (res ! j) \<longrightarrow>
                        dpq_start (b_items (sent ! Suc k) ! j)
                          = Some (case dpq_end (b_items (sent ! k) ! j) of
                                    None \<Rightarrow> end - 1
                                  | Some e \<Rightarrow> if e \<noteq> 0 then e - 1 else end - 1))"
        if "j < length res" for j
        using b[rule_format, OF that] by (simp add: next_start_def)
      then show ?thesis using p a by blast
    qed
    have c5: "\<exists>res. sent \<noteq> [] \<and> post self (last sent) = Inr res \<and> length res \<le> length qs0
               \<and> (\<forall>j < length res.
                     qs' ! j
                       = (b_items (last sent) ! j)\<lparr>dpq_start :=
                            Some (next_start end g (b_items (last sent) ! j) (res ! j))\<rparr>)"
      if "r = Inr rs" for rs
    proof -
      from rr that obtain rs' where r': "r' = Inr rs'" by blast
      have "\<exists>res. post self (last sent) = Inr res
              \<and> update_queries end g 0 res (b_items (last sent)) False = (qs', Inr False)"
        using t' unfolding r' by simp
      then obtain res where
        p: "post self (last sent) = Inr res"
        and u: "update_queries end g 0 res (b_items (last sent)) False = (qs', Inr False)"
        by blast
      note ur = update_queries_result[OF u]
      have "last sent = sent ! (length sent - 1)" using ne by (simp add: last_conv_nth)
      then have "length (b_items (last sent)) = length qs0" using c2 ne by simp
      then show ?thesis using ne p ur by auto
    qed
    show ?thesis using c1 c2 c3 c4 c5 by blast
  qed
qed

lemma lockstep_server_limits:
  "set_limits lockstep_server None 2 0 0 [query_a, query_b]
     = ([query_a\<lparr>dpq_limit := Some 1\<rparr>, query_b\<lparr>dpq_limit := Some 1\<rparr>], None)"
proof -
  have q: "query_limit lockstep_server None 2 0 query_a = Inr 1"
    "query_limit lockstep_server None 2 0 query_b = Inr 1"
    by (simp_all add: query_limit_def budgeted_raw_def int_truediv_def lockstep_server_def
        query_a_def query_b_def)
  have s2: "set_limits lockstep_server None 2 0 (Suc (Suc 0))
              [query_a\<lparr>dpq_limit := Some 1\<rparr>, query_b\<lparr>dpq_limit := Some 1\<rparr>]
            = ([query_a\<lparr>dpq_limit := Some 1\<rparr>, query_b\<lparr>dpq_limit := Some 1\<rparr>], None)"
    by (subst set_limits.simps) simp
  have s1: "set_limits lockstep_server None 2 0 (Suc 0)
              [query_a\<lparr>dpq_limit := Some 1\<rparr>, query_b]
            = ([query_a\<lparr>dpq_limit := Some 1\<rparr>, query_b\<lparr>dpq_limit := Some 1\<rparr>], None)"
    by (subst set_limits.simps) (simp add: q s2)
  show ?thesis
    by (subst set_limits.simps) (simp add: q s1)
qed

lemma lockstep_server_first:
  "post lockstep_server
     (make_body [query_a\<lparr>dpq_limit := Some 1\<rparr>, query_b\<lparr>dpq_limit := Some 1\<rparr>]
        None None 0 10 False)
     = Inr [[Datapoint 0 ()], []]"
  "update_queries 10 None 0 [[Datapoint 0 ()], []]
     [query_a\<lparr>dpq_limit := Some 1\<rparr>, query_b\<lparr>dpq_limit := Some 1\<rparr>] False
     = ([query_a\<lparr>dpq_limit := Some 1, dpq_start := Some 1\<rparr>,
         query_b\<lparr>dpq_limit := Some 1, dpq_start := Some 9\<rparr>], Inr True)"
  by (simp_all add: lockstep_server_def make_body_def query_a_def query_b_def
      granularity_ms_def)

lemma lockstep_server_second:
  "post lockstep_server
     (make_body [query_a\<lparr>dpq_limit := Some 1, dpq_start := Some 1\<rparr>,
                 query_b\<lparr>dpq_limit := Some 1, dpq_start := Some 9\<rparr>]
        None None 0 10 False)
     = Inr [[], []]"
  "update_queries 10 None 0 [[], []]
     [query_a\<lparr>dpq_limit := Some 1, dpq_start := Some 1\<rparr>,
      query_b\<lparr>dpq_limit := Some 1, dpq_start := Some 9\<rparr>] False
     = ([query_a\<lparr>dpq_limit := Some 1, dpq_start := Some 9\<rparr>,
         query_b\<lparr>dpq_limit := Some 1, dpq_start := Some 9\<rparr>], Inr False)"
  by (simp_all add: lockstep_server_def make_body_def query_a_def query_b_def)

lemma lockstep_server_run:
  "get_multi_time_series_datapoints lockstep_server [query_a, query_b] 0 10 None None False
     = Some ([make_body [query_a\<lparr>dpq_limit := Some 1\<rparr>, query_b\<lparr>dpq_limit := Some 1\<rparr>]
                None None 0 10 False,
              make_body [query_a\<lparr>dpq_limit := Some 1, dpq_start := Some 1\<rparr>,
                         query_b\<lparr>dpq_limit := Some 1, dpq_start := Some 9\<rparr>]
                None None 0 10 False],
             [query_a\<lparr>dpq_limit := Some 1, dpq_start := Some 9\<rparr>,
              query_b\<lparr>dpq_limit := Some 1, dpq_start := Some 9\<rparr>],
             Inr [(''a'', [Datapoint 0 ()]), (''b'', [])])"
proof -
  have n: "num_of_dpqs_raw None [query_a, query_b] = 2"
    "num_of_dpqs_with_agg None [query_a, query_b] = 0"
    by (simp_all add: num_of_dpqs_raw_def num_of_dpqs_with_agg_def counted_raw_def
        query_a_def query_b_def)
  have ml: "multi_loop lockstep_server None None 0 10 False
              [query_a\<lparr>dpq_limit := Some 1\<rparr>, query_b\<lparr>dpq_limit := Some 1\<rparr>] [] []
            = Some ([make_body [query_a\<lparr>dpq_limit := Some 1\<rparr>, query_b\<lparr>dpq_limit := Some 1\<rparr>]
                None None 0 10 False,
              make_body [query_a\<lparr>dpq_limit := Some 1, dpq_start := Some 1\<rparr>,
                         query_b\<lparr>dpq_limit := Some 1, dpq_start := Some 9\<rparr>]
                None None 0 10 False],
             [query_a\<lparr>dpq_limit := Some 1, dpq_start := Some 9\<rparr>,
              query_b\<lparr>dpq_limit := Some 1, dpq_start := Some 9\<rparr>],
             Inr [[[Datapoint 0 ()], []], [[], []]])"
    by (simp only: multi_loop_continue[OF lockstep_server_first]
        multi_loop_finish[OF lockstep_server_second] append.simps)
  have r: "results [query_a\<lparr>dpq_limit := Some 1, dpq_start := Some 9\<rparr>,
              query_b\<lparr>dpq_limit := Some 1, dpq_start := Some 9\<rparr>]
             [[[Datapoint 0 ()], []], [[], []]]
           = [(''a'', [Datapoint 0 ()]), (''b'', [])]"
    by (simp add: results_def query_a_def query_b_def upt_rec)
  show ?thesis
    unfolding get_multi_time_series_datapoints_def Let_def n lockstep_server_limits
    by (simp add: ml r)
qed

theorem queries_mutated_and_resent_witness:
  "get_multi_time_series_datapoints lockstep_server [query_a, query_b] 0 10 None None False
     = Some ([make_body [query_a\<lparr>dpq_limit := Some 1\<rparr>, query_b\<lparr>dpq_limit := Some 1\<rparr>]
                None None 0 10 False,
              make_body [query_a\<lparr>dpq_limit := Some 1, dpq_start := Some 1\<rparr>,
                         query_b\<lparr>dpq_limit := Some 1, dpq_start := Some 9\<rparr>]
                None None 0 10 False],
             [query_a\<lparr>dpq_limit := Some 1, dpq_start := Some 9\<rparr>,
              query_b\<lparr>dpq_limit := Some 1, dpq_start := Some 9\<rparr>],
             Inr [(''a'', [Datapoint 0 ()]), (''b'', [])])
   \<and> post lockstep_server
       (make_body [query_a\<lparr>dpq_limit := Some 1\<rparr>, query_b\<lparr>dpq_limit := Some 1\<rparr>]
          None None 0 10 False)
       = Inr [[Datapoint 0 ()], []]
   \<and> \<not> page_full (query_b\<lparr>dpq_limit := Some 1\<rparr>) ([] :: unit datapoint list)
   \<and> length (b_items (make_body [query_a\<lparr>dpq_limit := Some 1, dpq_start := Some 1\<rparr>,
                                   query_b\<lparr>dpq_limit := Some 1, dpq_start := Some 9\<rparr>]
                          None None 0 10 False))
       = length [query_a, query_b]
   \<and> dpq_start (b_items (make_body [query_a\<lparr>dpq_limit := Some 1, dpq_start := Some 1\<rparr>,
                                      query_b\<lparr>dpq_limit := Some 1, dpq_start := Some 9\<rparr>]
                             None None 0 10 False) ! 1)
       = Some (10 - 1)"
proof -
  note t = queries_mutated_and_resent[OF lockstep_server_run]
  have nf: "\<not> page_full (query_b\<lparr>dpq_limit := Some 1\<rparr>) ([] :: unit datapoint list)"
    by (simp add: page_full_def)
  have len: "length (b_items (make_body [query_a\<lparr>dpq_limit := Some 1, dpq_start := Some 1\<rparr>,
                                   query_b\<lparr>dpq_limit := Some 1, dpq_start := Some 9\<rparr>]
                          None None 0 10 False))
       = length [query_a, query_b]"
    using t[THEN conjunct2, THEN conjunct1, rule_format, of 1] by simp
  have "\<exists>res. post lockstep_server
                 (make_body [query_a\<lparr>dpq_limit := Some 1\<rparr>, query_b\<lparr>dpq_limit := Some 1\<rparr>]
                    None None 0 10 False) = Inr res
             \<and> (\<forall>j < length res.
                  \<not> page_full ([query_a\<lparr>dpq_limit := Some 1\<rparr>, query_b\<lparr>dpq_limit := Some 1\<rparr>] ! j)
                      (res ! j) \<longrightarrow>
                  dpq_start ([query_a\<lparr>dpq_limit := Some 1, dpq_start := Some 1\<rparr>,
                              query_b\<lparr>dpq_limit := Some 1, dpq_start := Some 9\<rparr>] ! j)
                    = Some (case dpq_end ([query_a\<lparr>dpq_limit := Some 1\<rparr>,
                                           query_b\<lparr>dpq_limit := Some 1\<rparr>] ! j) of
                              None \<Rightarrow> 10 - 1
                            | Some e \<Rightarrow> if e \<noteq> 0 then e - 1 else 10 - 1))"
    using t[THEN conjunct2, THEN conjunct2, THEN conjunct2, THEN conjunct1, rule_format, of 0]
    by (simp add: make_body_def) blast
  then have cur: "dpq_start (query_b\<lparr>dpq_limit := Some 1, dpq_start := Some 9\<rparr>)
                   = Some (case dpq_end (query_b\<lparr>dpq_limit := Some 1\<rparr>) of
                              None \<Rightarrow> 10 - 1
                            | Some e \<Rightarrow> if e \<noteq> 0 then e - 1 else 10 - 1)"
    unfolding lockstep_server_first(1) using nf by (auto dest: spec[of _ 1])
  have "dpq_end (query_b\<lparr>dpq_limit := Some 1\<rparr>) = None" by (simp add: query_b_def)
  then have cur': "dpq_start (b_items (make_body
                        [query_a\<lparr>dpq_limit := Some 1, dpq_start := Some 1\<rparr>,
                         query_b\<lparr>dpq_limit := Some 1, dpq_start := Some 9\<rparr>]
                        None None 0 10 False) ! 1)
       = Some (10 - 1)"
    using cur by (simp add: make_body_def)
  show ?thesis
    using lockstep_server_run lockstep_server_first(1) nf len cur'
    by (intro conjI)
qed

end
